theory Spec2Isabelle
  imports Main "HOL-Library.AList" "HOL-Library.Multiset"
begin

section \<open>Data model of the multi-match checker\<close>

text \<open>
  The checker of \<^verbatim>\<open>business/checkers/destinationrules/multi_match_checker.go\<close> reads
  destination rules whose spec is an untyped attribute map
  (\<^verbatim>\<open>map[string]interface{}\<close>). A value of Go's \<^verbatim>\<open>interface{}\<close> is a string,
  a nested attribute map, a slice of values, or anything else (number, bool, nil): the
  code only ever tests for the first three with a comma-ok type assertion.
\<close>

datatype val =
    VString string
  | VMap "string \<Rightarrow> val option"
  | VSlice "val list"
  | VOther

text \<open>The object metadata the checker reads (name, namespace, cluster name).\<close>

record ObjectMeta =
  meta_Name :: string
  meta_Namespace :: string
  meta_ClusterName :: string

text \<open>
  \<^verbatim>\<open>kubernetes.IstioObject\<close> is an interface; the checker calls only its two getters,
  which are the two fields here.
\<close>

record IstioObject =
  GetObjectMeta :: ObjectMeta
  GetSpec :: "string \<Rightarrow> val option"

record Host =
  Service :: string
  Namespace :: string
  Cluster :: string

record subset =
  Name :: string
  RuleName :: string

text \<open>
  Modelled from the spec: \<^verbatim>\<open>models.IstioCheck\<close> and \<^verbatim>\<open>models.Build\<close> live in the
  models package. A check carries the fixed check code and the attribute path it was
  built from.
\<close>

record IstioCheck =
  chk_Code :: string
  chk_Path :: string

definition Build :: "string \<Rightarrow> string \<Rightarrow> IstioCheck" where
  "Build checkId path = \<lparr>chk_Code = checkId, chk_Path = path\<rparr>"

text \<open>
  The key and the validation of the models package, with the fields that the struct
  literals of \<^verbatim>\<open>addError\<close> set. \<^verbatim>\<open>models.IstioValidations\<close> is a Go map from keys to
  validations; the checker only looks keys up and adds keys, so it is a HOL map.
\<close>

record IstioValidationKey =
  key_Name :: string
  key_ObjectType :: string

record IstioValidation =
  val_Name :: string
  val_ObjectType :: string
  Valid :: bool
  Checks :: "IstioCheck list"

type_synonym IstioValidations = "IstioValidationKey \<Rightarrow> IstioValidation option"

definition DestinationRulesCheckerType :: string where
  "DestinationRulesCheckerType = ''destinationrule''"

section \<open>Host normalisation\<close>

text \<open>
  Go's \<^verbatim>\<open>strings.Split(s, sep)\<close> for a separator of one byte: the pieces of \<open>s\<close>
  between the occurrences of the separator; the empty string gives one empty piece.
\<close>

fun strings_Split :: "string \<Rightarrow> char \<Rightarrow> string list" where
  "strings_Split [] sep = [[]]"
| "strings_Split (c # cs) sep =
     (if c = sep then [] # strings_Split cs sep
      else (case strings_Split cs sep of
              [] \<Rightarrow> [[c]]
            | p # ps \<Rightarrow> (c # p) # ps))"

fun strings_Join :: "string list \<Rightarrow> string \<Rightarrow> string" where
  "strings_Join [] sep = []"
| "strings_Join [x] sep = x"
| "strings_Join (x # y # ys) sep = x @ sep @ strings_Join (y # ys) sep"

text \<open>
  \<^verbatim>\<open>FormatHostnameForPrefixSearch\<close>. The index expression \<^verbatim>\<open>domainParts[0]\<close> panics on
  an empty slice: that is the result \<open>None\<close>. The reads \<^verbatim>\<open>domainParts[1]\<close> and
  \<^verbatim>\<open>domainParts[2:]\<close> are guarded by the length tests of the source.
\<close>

definition FormatHostnameForPrefixSearch :: "string \<Rightarrow> string \<Rightarrow> string \<Rightarrow> Host option" where
  "FormatHostnameForPrefixSearch hostName namespace clusterName =
     (let domainParts = strings_Split hostName (CHR ''.'') in
      case domainParts of
        [] \<Rightarrow> None
      | d0 # _ \<Rightarrow>
          (let host = \<lparr>Service = d0, Namespace = [], Cluster = []\<rparr>;
               host = (if length domainParts > 1
                       then (let host = host\<lparr>Namespace := domainParts ! 1\<rparr> in
                             if length domainParts > 2
                             then host\<lparr>Cluster := strings_Join (drop 2 domainParts) ''.''\<rparr>
                             else host)
                       else host);
               host = (if Cluster host = [] then host\<lparr>Cluster := clusterName\<rparr> else host);
               host = (if Namespace host = [] then host\<lparr>Namespace := namespace\<rparr> else host)
           in Some host))"

section \<open>Exemption filter and subset extraction\<close>

definition enablesNonLocalmTLS :: "IstioObject \<Rightarrow> Host \<Rightarrow> bool" where
  "enablesNonLocalmTLS dr fdqn =
     (if Service fdqn \<noteq> ''*'' then False
      else (case GetSpec dr ''trafficPolicy'' of
              Some (VMap trafficCasted) \<Rightarrow>
                (case trafficCasted ''tls'' of
                   Some (VMap tlsCasted) \<Rightarrow>
                     (case tlsCasted ''mode'' of
                        Some (VString modeCasted) \<Rightarrow> modeCasted = ''ISTIO_MUTUAL''
                      | _ \<Rightarrow> False)
                 | _ \<Rightarrow> False)
            | _ \<Rightarrow> False))"

text \<open>
  \<^verbatim>\<open>extractSubsets\<close>: the loop appends one subset for every element that is a map with
  a string under \<^verbatim>\<open>name\<close>; the accumulator of the fold is \<^verbatim>\<open>foundSubsets\<close>. The
  sentinel \<^verbatim>\<open>~\<close> is returned only when the attribute is absent or is not a slice.
\<close>

definition extractSubsets :: "IstioObject \<Rightarrow> string \<Rightarrow> subset list" where
  "extractSubsets dr destinationRulesName =
     (case GetSpec dr ''subsets'' of
        Some (VSlice subsetSlice) \<Rightarrow>
          fold (\<lambda>se foundSubsets.
                  case se of
                    VMap element \<Rightarrow>
                      (case element ''name'' of
                         Some (VString n) \<Rightarrow>
                           foundSubsets @ [\<lparr>Name = n, RuleName = destinationRulesName\<rparr>]
                       | _ \<Rightarrow> foundSubsets)
                  | _ \<Rightarrow> foundSubsets)
               subsetSlice []
      | _ \<Rightarrow> [\<lparr>Name = ''~'', RuleName = destinationRulesName\<rparr>])"

section \<open>Recording findings\<close>

text \<open>
  Modelled from the spec: \<^verbatim>\<open>IstioValidations.MergeValidations\<close> lives in the models
  package. The merge is additive by key and leaves the keys the receiver already has as
  they are. \<^verbatim>\<open>addError\<close> calls it only for a key the receiver lacks.
\<close>

definition MergeValidations :: "IstioValidations \<Rightarrow> IstioValidations \<Rightarrow> IstioValidations" where
  "MergeValidations iv validations =
     (\<lambda>key. case iv key of Some v \<Rightarrow> Some v | None \<Rightarrow> validations key)"

definition addError :: "IstioValidations \<Rightarrow> string list \<Rightarrow> IstioValidations" where
  "addError validations destinationRuleNames =
     fold (\<lambda>destinationRuleName validations.
             (let key = \<lparr>key_Name = destinationRuleName,
                         key_ObjectType = DestinationRulesCheckerType\<rparr>;
                  checks = Build ''destinationrules.multimatch'' ''spec/host'';
                  rrValidation = \<lparr>val_Name = destinationRuleName,
                                  val_ObjectType = DestinationRulesCheckerType,
                                  Valid = True,
                                  Checks = [checks]\<rparr>
              in if validations key = None
                 then MergeValidations validations [key \<mapsto> rrValidation]
                 else validations))
          destinationRuleNames validations"

section \<open>The collision index\<close>

text \<open>
  The two Go maps the checker iterates over are association lists: \<^verbatim>\<open>map[string]string\<close>
  from subset name to owning rule, and \<^verbatim>\<open>seenHostSubsets\<close> from service name to such
  a map. Lookup is \<^const>\<open>map_of\<close>, assignment is \<^const>\<open>AList.update\<close>, which replaces in
  place or appends and keeps the keys distinct. A \<^verbatim>\<open>range\<close> over a Go map yields every
  entry once, in an order the language leaves unspecified: any list with the same
  multiset of entries.
\<close>

type_synonym subsetOwners = "(string \<times> string) list"
type_synonym hostSubsets = "(string \<times> subsetOwners) list"

text \<open>
  \<^verbatim>\<open>checkCollisions\<close>, with the order in which \<^verbatim>\<open>range existing\<close> yields the entries
  as the first argument. \<^verbatim>\<open>foundSubsets[0]\<close> is read only when the length is one.
\<close>

definition checkCollisions ::
  "subsetOwners \<Rightarrow> IstioValidations \<Rightarrow> string \<Rightarrow> subset list \<Rightarrow> subsetOwners \<Rightarrow> IstioValidations" where
  "checkCollisions order validations destinationRulesName foundSubsets existing =
     (let validations =
            (if length foundSubsets = 1 \<and> Name (foundSubsets ! 0) = ''~''
             then fold (\<lambda>(_, v) validations. addError validations [destinationRulesName, v])
                       order validations
             else validations);
          validations =
            (case map_of existing ''~'' of
               Some ruleName \<Rightarrow> addError validations [destinationRulesName, ruleName]
             | None \<Rightarrow> validations)
      in fold (\<lambda>s validations.
                 case map_of existing (Name s) of
                   Some ruleName \<Rightarrow> addError validations [destinationRulesName, ruleName]
                 | None \<Rightarrow> validations)
              foundSubsets validations)"

text \<open>A run of \<^verbatim>\<open>checkCollisions\<close>: the range takes any order of the entries.\<close>

inductive checkCollisions_run ::
  "IstioValidations \<Rightarrow> string \<Rightarrow> subset list \<Rightarrow> subsetOwners \<Rightarrow> IstioValidations \<Rightarrow> bool" where
  "mset order = mset existing \<Longrightarrow>
   checkCollisions_run validations n foundSubsets existing
     (checkCollisions order validations n foundSubsets existing)"

text \<open>
  The loop \<^verbatim>\<open>for _, h := range seenHostSubsets\<close> of \<^verbatim>\<open>Check\<close>, over the entries in the
  order the range yields them.
\<close>

inductive checkAllHosts_run ::
  "hostSubsets \<Rightarrow> IstioValidations \<Rightarrow> string \<Rightarrow> subset list \<Rightarrow> IstioValidations \<Rightarrow> bool" where
  "checkAllHosts_run [] validations n foundSubsets validations"
| "checkCollisions_run validations n foundSubsets h validations1 \<Longrightarrow>
   checkAllHosts_run hs validations1 n foundSubsets validations2 \<Longrightarrow>
   checkAllHosts_run ((k, h) # hs) validations n foundSubsets validations2"

text \<open>
  The three collision checks of the loop body of \<^verbatim>\<open>Check\<close>: against every
  seen host when the service is the wildcard, against the wildcard entry, against the
  entry of the service itself. First as the runs the unspecified orders allow, then as
  the function that takes every range in the order of the association list.
\<close>

inductive checkSeen_run ::
  "IstioValidations \<Rightarrow> string \<Rightarrow> subset list \<Rightarrow> string \<Rightarrow> hostSubsets \<Rightarrow> IstioValidations \<Rightarrow> bool" where
  "(if service = ''*''
    then (\<exists>hs. mset hs = mset seenHostSubsets \<and> checkAllHosts_run hs validations n foundSubsets validations1)
    else validations1 = validations) \<Longrightarrow>
   (case map_of seenHostSubsets ''*'' of
      Some previous \<Rightarrow> checkCollisions_run validations1 n foundSubsets previous validations2
    | None \<Rightarrow> validations2 = validations1) \<Longrightarrow>
   (case map_of seenHostSubsets service of
      Some previous \<Rightarrow> checkCollisions_run validations2 n foundSubsets previous validations3
    | None \<Rightarrow> validations3 = validations2) \<Longrightarrow>
   checkSeen_run validations n foundSubsets service seenHostSubsets validations3"

definition checkSeen ::
  "IstioValidations \<Rightarrow> string \<Rightarrow> subset list \<Rightarrow> string \<Rightarrow> hostSubsets \<Rightarrow> IstioValidations" where
  "checkSeen validations destinationRulesName foundSubsets service seenHostSubsets =
     (let validations =
            (if service = ''*''
             then fold (\<lambda>(_, h) validations.
                          checkCollisions h validations destinationRulesName foundSubsets h)
                       seenHostSubsets validations
             else validations);
          validations =
            (case map_of seenHostSubsets ''*'' of
               Some previous \<Rightarrow>
                 checkCollisions previous validations destinationRulesName foundSubsets previous
             | None \<Rightarrow> validations)
      in case map_of seenHostSubsets service of
           Some previous \<Rightarrow>
             checkCollisions previous validations destinationRulesName foundSubsets previous
         | None \<Rightarrow> validations)"

text \<open>
  The registration at the end of the loop body: the entry of the service is created when
  absent, then every found subset is assigned to the rule. An assignment
  \<^verbatim>\<open>seenHostSubsets[service][s.Name] = name\<close> through a missing entry would write to a nil
  map and panic: that is \<open>None\<close>.
\<close>

definition registerSubsets ::
  "hostSubsets \<Rightarrow> string \<Rightarrow> subset list \<Rightarrow> string \<Rightarrow> hostSubsets option" where
  "registerSubsets seenHostSubsets service foundSubsets destinationRulesName =
     (let seenHostSubsets =
            (case map_of seenHostSubsets service of
               None \<Rightarrow> AList.update service [] seenHostSubsets
             | Some _ \<Rightarrow> seenHostSubsets)
      in fold (\<lambda>s r.
                 case r of
                   None \<Rightarrow> None
                 | Some seenHostSubsets \<Rightarrow>
                     (case map_of seenHostSubsets service of
                        None \<Rightarrow> None
                      | Some inner \<Rightarrow>
                          Some (AList.update service
                                  (AList.update (Name s) destinationRulesName inner)
                                  seenHostSubsets)))
              foundSubsets (Some seenHostSubsets))"

section \<open>The Check operation\<close>

text \<open>
  One iteration of the loop of \<^verbatim>\<open>Check\<close> on the state (validations, seenHostSubsets);
  \<open>None\<close> is a panic. First the function, then the runs.
\<close>

definition Check_step ::
  "IstioValidations \<times> hostSubsets \<Rightarrow> IstioObject \<Rightarrow> (IstioValidations \<times> hostSubsets) option" where
  "Check_step st dr =
     (case st of (validations, seenHostSubsets) \<Rightarrow>
        (case GetSpec dr ''host'' of
           Some (VString dHost) \<Rightarrow>
             (let destinationRulesName = meta_Name (GetObjectMeta dr) in
              case FormatHostnameForPrefixSearch dHost
                     (meta_Namespace (GetObjectMeta dr)) (meta_ClusterName (GetObjectMeta dr)) of
                None \<Rightarrow> None
              | Some fqdn \<Rightarrow>
                  if enablesNonLocalmTLS dr fqdn then Some st
                  else (let foundSubsets = extractSubsets dr destinationRulesName;
                            validations = checkSeen validations destinationRulesName
                                            foundSubsets (Service fqdn) seenHostSubsets
                        in map_option (Pair validations)
                             (registerSubsets seenHostSubsets (Service fqdn)
                                foundSubsets destinationRulesName)))
         | _ \<Rightarrow> Some st))"

definition Check_step_run ::
  "IstioValidations \<times> hostSubsets \<Rightarrow> IstioObject \<Rightarrow> (IstioValidations \<times> hostSubsets) option \<Rightarrow> bool" where
  "Check_step_run st dr r =
     (case st of (validations, seenHostSubsets) \<Rightarrow>
        (case GetSpec dr ''host'' of
           Some (VString dHost) \<Rightarrow>
             (let destinationRulesName = meta_Name (GetObjectMeta dr) in
              case FormatHostnameForPrefixSearch dHost
                     (meta_Namespace (GetObjectMeta dr)) (meta_ClusterName (GetObjectMeta dr)) of
                None \<Rightarrow> r = None
              | Some fqdn \<Rightarrow>
                  if enablesNonLocalmTLS dr fqdn then r = Some st
                  else (let foundSubsets = extractSubsets dr destinationRulesName in
                        \<exists>validations'.
                          checkSeen_run validations destinationRulesName
                            foundSubsets (Service fqdn) seenHostSubsets validations' \<and>
                          r = map_option (Pair validations')
                                (registerSubsets seenHostSubsets (Service fqdn)
                                   foundSubsets destinationRulesName)))
         | _ \<Rightarrow> r = Some st))"

text \<open>The loop of \<^verbatim>\<open>Check\<close> over the rules, from a state to the state it ends in.\<close>

fun Check_loop ::
  "IstioValidations \<times> hostSubsets \<Rightarrow> IstioObject list \<Rightarrow> (IstioValidations \<times> hostSubsets) option" where
  "Check_loop st [] = Some st"
| "Check_loop st (dr # drs) =
     (case Check_step st dr of None \<Rightarrow> None | Some st' \<Rightarrow> Check_loop st' drs)"

inductive Check_loop_run ::
  "IstioValidations \<times> hostSubsets \<Rightarrow> IstioObject list \<Rightarrow> (IstioValidations \<times> hostSubsets) option \<Rightarrow> bool" where
  "Check_loop_run st [] (Some st)"
| "Check_step_run st dr None \<Longrightarrow> Check_loop_run st (dr # drs) None"
| "Check_step_run st dr (Some st') \<Longrightarrow> Check_loop_run st' drs r \<Longrightarrow>
   Check_loop_run st (dr # drs) r"

text \<open>
  \<^verbatim>\<open>Check\<close> on the rules of the checker: both maps start empty and the validations are
  returned. \<open>Check_run drs r\<close> says that some run of \<^verbatim>\<open>Check\<close> on \<open>drs\<close> ends in
  \<open>r\<close>, whatever orders its ranges take.
\<close>

definition Check :: "IstioObject list \<Rightarrow> IstioValidations option" where
  "Check DestinationRules = map_option fst (Check_loop (Map.empty, []) DestinationRules)"

definition Check_run :: "IstioObject list \<Rightarrow> IstioValidations option \<Rightarrow> bool" where
  "Check_run DestinationRules r =
     (\<exists>st. Check_loop_run (Map.empty, []) DestinationRules st \<and> r = map_option fst st)"

section \<open>Auxiliary notions for the proofs\<close>

text \<open>
  The validations that flag exactly the rule names of a set, the names one call of
  \<^verbatim>\<open>checkCollisions\<close> records, and the names the three checks of one loop iteration
  record.
\<close>

definition flagged :: "string set \<Rightarrow> IstioValidations" where
  "flagged S =
     (\<lambda>key. if key_ObjectType key = DestinationRulesCheckerType \<and> key_Name key \<in> S
            then Some \<lparr>val_Name = key_Name key,
                       val_ObjectType = DestinationRulesCheckerType,
                       Valid = True,
                       Checks = [Build ''destinationrules.multimatch'' ''spec/host'']\<rparr>
            else None)"

definition collisions :: "string \<Rightarrow> subset list \<Rightarrow> subsetOwners \<Rightarrow> string set" where
  "collisions n foundSubsets existing =
     (if length foundSubsets = 1 \<and> Name (foundSubsets ! 0) = ''~'' \<and> existing \<noteq> []
      then insert n (snd ` set existing) else {})
     \<union> (case map_of existing ''~'' of Some ruleName \<Rightarrow> {n, ruleName} | None \<Rightarrow> {})
     \<union> (\<Union>s \<in> set foundSubsets.
           case map_of existing (Name s) of Some ruleName \<Rightarrow> {n, ruleName} | None \<Rightarrow> {})"

definition seenCollisions :: "string \<Rightarrow> subset list \<Rightarrow> string \<Rightarrow> hostSubsets \<Rightarrow> string set" where
  "seenCollisions n foundSubsets service seenHostSubsets =
     (if service = ''*''
      then (\<Union>kh \<in> set seenHostSubsets. collisions n foundSubsets (snd kh)) else {})
     \<union> (case map_of seenHostSubsets ''*'' of
          Some previous \<Rightarrow> collisions n foundSubsets previous | None \<Rightarrow> {})
     \<union> (case map_of seenHostSubsets service of
          Some previous \<Rightarrow> collisions n foundSubsets previous | None \<Rightarrow> {})"

text \<open>
  The subset \<open>b\<close> of a service is claimed in the index of a state, and by the rule \<open>n\<close>
  unless \<open>n\<close> already has a finding.
\<close>

definition owned :: "IstioValidations \<times> hostSubsets \<Rightarrow> string \<Rightarrow> string \<Rightarrow> string \<Rightarrow> bool" where
  "owned st service b n =
     (\<exists>inner r. map_of (snd st) service = Some inner \<and> map_of inner b = Some r \<and>
        (r = n \<or> fst st \<lparr>key_Name = n, key_ObjectType = ''destinationrule''\<rparr> \<noteq> None))"

text \<open>
  An index represents a Go map of Go maps when no key stands twice in it or in one of its
  entries.
\<close>

definition index_wf :: "hostSubsets \<Rightarrow> bool" where
  "index_wf seen =
     (distinct (map fst seen) \<and> (\<forall>kh \<in> set seen. distinct (map fst (snd kh))))"

text \<open>The rule names that own a subset somewhere in an index.\<close>

definition owners :: "hostSubsets \<Rightarrow> string set" where
  "owners seen = (\<Union>kh \<in> set seen. snd ` set (snd kh))"

section \<open>Properties of the host normaliser\<close>

lemma strings_Split_nonempty: "strings_Split s sep \<noteq> []"
  by (induction s) (auto split: list.splits)

lemma strings_Join_Split: "strings_Join (strings_Split s sep) [sep] = s"
proof (induction s)
  case Nil
  show ?case by simp
next
  case (Cons c cs)
  obtain p ps where ps: "strings_Split cs sep = p # ps"
    using strings_Split_nonempty [of cs sep] by (cases "strings_Split cs sep") auto
  with Cons show ?case
    by (cases ps) auto
qed

text \<open>
  C8. The host normaliser returns a host for every input string (the index
  \<^verbatim>\<open>domainParts[0]\<close> never panics). The host it returns has the first dot segment as
  service, the second segment as namespace unless it is missing or empty, then the
  namespace of the object, and the remaining segments joined with a dot as cluster unless
  that is missing or empty, then the cluster of the object. The two equations of the
  specification hold.
\<close>

theorem FormatHostnameForPrefixSearch_total:
  "FormatHostnameForPrefixSearch hostName namespace clusterName =
     Some \<lparr>Service = hd (strings_Split hostName (CHR ''.'')),
           Namespace = (if 1 < length (strings_Split hostName (CHR ''.'')) \<and>
                           strings_Split hostName (CHR ''.'') ! 1 \<noteq> []
                        then strings_Split hostName (CHR ''.'') ! 1 else namespace),
           Cluster = (if 2 < length (strings_Split hostName (CHR ''.'')) \<and>
                         strings_Join (drop 2 (strings_Split hostName (CHR ''.''))) ''.'' \<noteq> []
                      then strings_Join (drop 2 (strings_Split hostName (CHR ''.''))) ''.''
                      else clusterName)\<rparr>
   \<and> FormatHostnameForPrefixSearch ''reviews.bookinfo.svc.cluster.local'' ''default'' [] =
       Some \<lparr>Service = ''reviews'', Namespace = ''bookinfo'', Cluster = ''svc.cluster.local''\<rparr>
   \<and> FormatHostnameForPrefixSearch ''reviews'' ''bookinfo'' ''east'' =
       Some \<lparr>Service = ''reviews'', Namespace = ''bookinfo'', Cluster = ''east''\<rparr>"
proof -
  obtain d0 ds where parts: "strings_Split hostName (CHR ''.'') = d0 # ds"
    using strings_Split_nonempty [of hostName "CHR ''.''"]
    by (cases "strings_Split hostName (CHR ''.'')") auto
  have general: "FormatHostnameForPrefixSearch hostName namespace clusterName =
     Some \<lparr>Service = hd (strings_Split hostName (CHR ''.'')),
           Namespace = (if 1 < length (strings_Split hostName (CHR ''.'')) \<and>
                           strings_Split hostName (CHR ''.'') ! 1 \<noteq> []
                        then strings_Split hostName (CHR ''.'') ! 1 else namespace),
           Cluster = (if 2 < length (strings_Split hostName (CHR ''.'')) \<and>
                         strings_Join (drop 2 (strings_Split hostName (CHR ''.''))) ''.'' \<noteq> []
                      then strings_Join (drop 2 (strings_Split hostName (CHR ''.''))) ''.''
                      else clusterName)\<rparr>"
    by (simp add: FormatHostnameForPrefixSearch_def parts Let_def)
  have first: "FormatHostnameForPrefixSearch ''reviews.bookinfo.svc.cluster.local'' ''default'' [] =
       Some \<lparr>Service = ''reviews'', Namespace = ''bookinfo'', Cluster = ''svc.cluster.local''\<rparr>"
    by (simp add: FormatHostnameForPrefixSearch_def)
  have second: "FormatHostnameForPrefixSearch ''reviews'' ''bookinfo'' ''east'' =
       Some \<lparr>Service = ''reviews'', Namespace = ''bookinfo'', Cluster = ''east''\<rparr>"
    by (simp add: FormatHostnameForPrefixSearch_def)
  from general first second show ?thesis by (intro conjI)
qed

section \<open>Properties of the exemption filter\<close>

lemma case_VMap_ex:
  "(case x of Some (VMap m) \<Rightarrow> f m | _ \<Rightarrow> False) = (\<exists>m. x = Some (VMap m) \<and> f m)"
proof (cases x)
  case None
  then show ?thesis by simp
next
  case (Some v)
  then show ?thesis by (cases v) simp_all
qed

lemma case_VString_ex:
  "(case x of Some (VString s) \<Rightarrow> f s | _ \<Rightarrow> False) = (\<exists>s. x = Some (VString s) \<and> f s)"
proof (cases x)
  case None
  then show ?thesis by simp
next
  case (Some v)
  then show ?thesis by (cases v) simp_all
qed

lemma enablesNonLocalmTLS_char:
  "enablesNonLocalmTLS dr fdqn =
     (Service fdqn = ''*'' \<and>
      (\<exists>trafficPolicy tls.
          GetSpec dr ''trafficPolicy'' = Some (VMap trafficPolicy) \<and>
          trafficPolicy ''tls'' = Some (VMap tls) \<and>
          tls ''mode'' = Some (VString ''ISTIO_MUTUAL'')))"
  unfolding enablesNonLocalmTLS_def case_VMap_ex case_VString_ex
  by simp

text \<open>
  C5. The exemption filter is a total boolean function (every type assertion of the
  source is of the comma-ok form, so there is no error to signal). It returns true exactly
  when the service of the host is the wildcard and the object has a map under
  \<^verbatim>\<open>trafficPolicy\<close>, which has a map under \<^verbatim>\<open>tls\<close>, which has the string
  \<^verbatim>\<open>ISTIO_MUTUAL\<close> under \<^verbatim>\<open>mode\<close>. A level that is absent or of another type falls
  outside the right-hand side, so the result is false there.
\<close>

theorem enablesNonLocalmTLS_iff:
  "enablesNonLocalmTLS dr fdqn =
     (Service fdqn = ''*'' \<and>
      (\<exists>trafficPolicy tls.
          GetSpec dr ''trafficPolicy'' = Some (VMap trafficPolicy) \<and>
          trafficPolicy ''tls'' = Some (VMap tls) \<and>
          tls ''mode'' = Some (VString ''ISTIO_MUTUAL'')))"
  by (rule enablesNonLocalmTLS_char)

section \<open>Properties of the subset extractor\<close>

lemma extractSubsets_fold:
  "fold (\<lambda>se foundSubsets.
           case se of
             VMap element \<Rightarrow>
               (case element ''name'' of
                  Some (VString x) \<Rightarrow> foundSubsets @ [\<lparr>Name = x, RuleName = n\<rparr>]
                | _ \<Rightarrow> foundSubsets)
           | _ \<Rightarrow> foundSubsets) es acc
   = acc @ concat (map (\<lambda>se. case se of
                          VMap element \<Rightarrow>
                            (case element ''name'' of
                               Some (VString x) \<Rightarrow> [\<lparr>Name = x, RuleName = n\<rparr>]
                             | _ \<Rightarrow> [])
                        | _ \<Rightarrow> []) es)"
  by (induction es arbitrary: acc) (auto split: val.splits option.splits)

lemma extractSubsets_slice:
  "GetSpec dr ''subsets'' = Some (VSlice es) \<Longrightarrow>
   extractSubsets dr n =
     concat (map (\<lambda>se. case se of
                    VMap element \<Rightarrow>
                      (case element ''name'' of
                         Some (VString x) \<Rightarrow> [\<lparr>Name = x, RuleName = n\<rparr>]
                       | _ \<Rightarrow> [])
                  | _ \<Rightarrow> []) es)"
  by (simp add: extractSubsets_def extractSubsets_fold)

lemma extractSubsets_names:
  "GetSpec dr ''subsets'' = Some (VSlice es) \<Longrightarrow>
   Name ` set (extractSubsets dr n) =
     {x. \<exists>element. VMap element \<in> set es \<and> element ''name'' = Some (VString x)}"
  by (force simp: extractSubsets_slice split: val.splits option.splits)

lemma extractSubsets_sentinel:
  "\<forall>es. GetSpec dr ''subsets'' \<noteq> Some (VSlice es) \<Longrightarrow>
   extractSubsets dr n = [\<lparr>Name = ''~'', RuleName = n\<rparr>]"
  by (auto simp: extractSubsets_def split: option.splits val.splits)

lemma extractSubsets_RuleName:
  "s \<in> set (extractSubsets dr n) \<Longrightarrow> RuleName s = n"
  by (auto simp: extractSubsets_def extractSubsets_fold split: option.splits val.splits)

text \<open>
  What the extractor returns, by the two paths of the source: the sentinel when the
  attribute is absent or is not a list, and otherwise the subsets of the entries that
  are maps with a string under \<^verbatim>\<open>name\<close>, in list order, each owned by the given
  identity.
\<close>

lemma extractSubsets_cases:
  "((\<forall>es. GetSpec dr ''subsets'' \<noteq> Some (VSlice es)) \<longrightarrow>
      extractSubsets dr n = [\<lparr>Name = ''~'', RuleName = n\<rparr>])
   \<and> (\<forall>es. GetSpec dr ''subsets'' = Some (VSlice es) \<longrightarrow>
         extractSubsets dr n =
           concat (map (\<lambda>se. case se of
                          VMap element \<Rightarrow>
                            (case element ''name'' of
                               Some (VString x) \<Rightarrow> [\<lparr>Name = x, RuleName = n\<rparr>]
                             | _ \<Rightarrow> [])
                        | _ \<Rightarrow> []) es))"
  using extractSubsets_sentinel [of dr n] extractSubsets_slice [of dr _ n] by blast

section \<open>What the collision checks record\<close>

lemma flagged_empty: "flagged {} = Map.empty"
  by (simp add: flagged_def)

lemma flagged_add_empty [simp]: "flagged {} ++ v = v"
  by (simp add: flagged_empty)

lemma flagged_add [simp]: "flagged A ++ flagged B = flagged (A \<union> B)"
  by (rule ext) (auto simp: flagged_def map_add_def split: option.splits)

lemma addError_one:
  "(let key = \<lparr>key_Name = x, key_ObjectType = DestinationRulesCheckerType\<rparr>;
        checks = Build ''destinationrules.multimatch'' ''spec/host'';
        rrValidation = \<lparr>val_Name = x, val_ObjectType = DestinationRulesCheckerType,
                        Valid = True, Checks = [checks]\<rparr>
    in if v key = None then MergeValidations v [key \<mapsto> rrValidation] else v)
   = flagged {x} ++ v"
proof (rule ext)
  fix k :: IstioValidationKey
  obtain a b where k: "k = \<lparr>key_Name = a, key_ObjectType = b\<rparr>" by (cases k)
  show "(let key = \<lparr>key_Name = x, key_ObjectType = DestinationRulesCheckerType\<rparr>;
        checks = Build ''destinationrules.multimatch'' ''spec/host'';
        rrValidation = \<lparr>val_Name = x, val_ObjectType = DestinationRulesCheckerType,
                        Valid = True, Checks = [checks]\<rparr>
    in if v key = None then MergeValidations v [key \<mapsto> rrValidation] else v) k
   = (flagged {x} ++ v) k"
    unfolding k
    by (auto simp: Let_def MergeValidations_def flagged_def map_add_def split: option.splits)
qed

lemma addError_flagged: "addError v names = flagged (set names) ++ v"
proof (induction names arbitrary: v)
  case Nil
  show ?case by (simp add: addError_def)
next
  case (Cons x xs)
  have "addError v (x # xs) = addError (flagged {x} ++ v) xs"
    unfolding addError_def fold_simps addError_one ..
  also have "\<dots> = flagged (set xs) ++ (flagged {x} ++ v)" by (rule Cons.IH)
  also have "\<dots> = flagged (set (x # xs)) ++ v"
    by (simp add: Un_commute)
  finally show ?case .
qed

lemma fold_range_flagged:
  "fold (\<lambda>(_, r) validations. addError validations [n, r]) kvs v =
   flagged (if kvs = [] then {} else insert n (snd ` set kvs)) ++ v"
proof (induction kvs arbitrary: v)
  case Nil
  show ?case by simp
next
  case (Cons kv kvs)
  obtain k r where kv: "kv = (k, r)" by (cases kv)
  have "fold (\<lambda>(_, r) validations. addError validations [n, r]) (kv # kvs) v =
        fold (\<lambda>(_, r) validations. addError validations [n, r]) kvs (addError v [n, r])"
    by (simp add: kv)
  also have "\<dots> = flagged (if kvs = [] then {} else insert n (snd ` set kvs)) ++ addError v [n, r]"
    by (rule Cons.IH)
  also have "\<dots> = flagged ((if kvs = [] then {} else insert n (snd ` set kvs)) \<union> {n, r}) ++ v"
    by (simp add: addError_flagged)
  also have "(if kvs = [] then {} else insert n (snd ` set kvs)) \<union> {n, r} =
             insert n (snd ` set (kv # kvs))"
    by (auto simp: kv)
  finally show ?case by simp
qed

lemma fold_found_flagged:
  "fold (\<lambda>s validations.
           case map_of existing (Name s) of
             Some ruleName \<Rightarrow> addError validations [n, ruleName]
           | None \<Rightarrow> validations) found v =
   flagged (\<Union>s \<in> set found.
              case map_of existing (Name s) of Some ruleName \<Rightarrow> {n, ruleName} | None \<Rightarrow> {}) ++ v"
proof (induction found arbitrary: v)
  case Nil
  show ?case by simp
next
  case (Cons s found)
  let ?f = "\<lambda>s validations.
           case map_of existing (Name s) of
             Some ruleName \<Rightarrow> addError validations [n, ruleName]
           | None \<Rightarrow> validations"
  let ?S = "\<lambda>s. case map_of existing (Name s) of Some ruleName \<Rightarrow> {n, ruleName} | None \<Rightarrow> {}"
  have one: "?f s v = flagged (?S s) ++ v"
    by (cases "map_of existing (Name s)") (simp_all add: addError_flagged)
  have "fold ?f (s # found) v = fold ?f found (?f s v)" by simp
  also have "\<dots> = flagged (\<Union>s \<in> set found. ?S s) ++ ?f s v" by (rule Cons.IH)
  also have "\<dots> = flagged ((\<Union>s \<in> set found. ?S s) \<union> ?S s) ++ v"
    unfolding one by simp
  also have "(\<Union>s \<in> set found. ?S s) \<union> ?S s = (\<Union>s \<in> set (s # found). ?S s)"
    by auto
  finally show ?case .
qed

lemma checkCollisions_flagged:
  assumes "set order = set existing"
  shows "checkCollisions order v n found existing = flagged (collisions n found existing) ++ v"
proof -
  have e: "(order = []) = (existing = [])" using assms by (metis set_empty)
  show ?thesis
    unfolding checkCollisions_def collisions_def Let_def fold_found_flagged fold_range_flagged
    by (cases "map_of existing ''~''")
       (simp_all add: assms e addError_flagged Un_ac)
qed

section \<open>Every run of the checker computes the same result\<close>

lemma checkCollisions_run_iff:
  "checkCollisions_run v n found existing v' = (v' = flagged (collisions n found existing) ++ v)"
proof
  assume "checkCollisions_run v n found existing v'"
  then obtain order where "mset order = mset existing"
    and "v' = checkCollisions order v n found existing"
    by (auto elim: checkCollisions_run.cases)
  then show "v' = flagged (collisions n found existing) ++ v"
    using checkCollisions_flagged [of order existing v n found] mset_eq_setD by blast
next
  assume "v' = flagged (collisions n found existing) ++ v"
  then have "v' = checkCollisions existing v n found existing"
    by (simp add: checkCollisions_flagged)
  then show "checkCollisions_run v n found existing v'"
    using checkCollisions_run.intros [of existing existing v n found] by simp
qed

lemma checkAllHosts_run_iff:
  "checkAllHosts_run hs v n found v' =
     (v' = flagged (\<Union>kh \<in> set hs. collisions n found (snd kh)) ++ v)"
proof (induction hs arbitrary: v)
  case Nil
  show ?case by (subst checkAllHosts_run.simps) auto
next
  case (Cons kh hs)
  obtain k h where kh: "kh = (k, h)" by (cases kh)
  have "checkAllHosts_run (kh # hs) v n found v' =
        (\<exists>v1. checkCollisions_run v n found h v1 \<and> checkAllHosts_run hs v1 n found v')"
    unfolding kh by (subst checkAllHosts_run.simps) auto
  also have "\<dots> = (v' = flagged (\<Union>kh \<in> set hs. collisions n found (snd kh)) ++
                          (flagged (collisions n found h) ++ v))"
    unfolding Cons.IH checkCollisions_run_iff by blast
  also have "\<dots> = (v' = flagged (\<Union>kh \<in> set (kh # hs). collisions n found (snd kh)) ++ v)"
    by (simp add: kh Un_commute)
  finally show ?case .
qed

lemma fold_hosts_flagged:
  "fold (\<lambda>(_, h) validations. checkCollisions h validations n found h) hs v =
   flagged (\<Union>kh \<in> set hs. collisions n found (snd kh)) ++ v"
proof (induction hs arbitrary: v)
  case Nil
  show ?case by simp
next
  case (Cons kh hs)
  obtain k h where kh: "kh = (k, h)" by (cases kh)
  have "fold (\<lambda>(_, h) validations. checkCollisions h validations n found h) (kh # hs) v =
        fold (\<lambda>(_, h) validations. checkCollisions h validations n found h) hs
          (checkCollisions h v n found h)"
    by (simp add: kh)
  also have "\<dots> = flagged (\<Union>kh \<in> set hs. collisions n found (snd kh)) ++
                     checkCollisions h v n found h"
    by (rule Cons.IH)
  also have "\<dots> = flagged (\<Union>kh \<in> set (kh # hs). collisions n found (snd kh)) ++ v"
    by (simp add: checkCollisions_flagged kh Un_commute)
  finally show ?case .
qed

lemma checkSeen_flagged:
  "checkSeen v n found service seen = flagged (seenCollisions n found service seen) ++ v"
  unfolding checkSeen_def seenCollisions_def Let_def fold_hosts_flagged
  by (cases "map_of seen ''*''"; cases "map_of seen service")
     (simp_all add: checkCollisions_flagged Un_ac)

lemma checkSeen_run_iff:
  "checkSeen_run v n found service seen v' = (v' = checkSeen v n found service seen)"
proof -
  have all: "(\<exists>hs. mset hs = mset seen \<and> checkAllHosts_run hs v n found v1) =
             (v1 = flagged (\<Union>kh \<in> set seen. collisions n found (snd kh)) ++ v)" for v1
  proof
    assume "\<exists>hs. mset hs = mset seen \<and> checkAllHosts_run hs v n found v1"
    then obtain hs where "mset hs = mset seen" "checkAllHosts_run hs v n found v1" by blast
    then show "v1 = flagged (\<Union>kh \<in> set seen. collisions n found (snd kh)) ++ v"
      using mset_eq_setD [of hs seen] by (simp add: checkAllHosts_run_iff)
  next
    assume "v1 = flagged (\<Union>kh \<in> set seen. collisions n found (snd kh)) ++ v"
    then have "checkAllHosts_run seen v n found v1" by (simp add: checkAllHosts_run_iff)
    then show "\<exists>hs. mset hs = mset seen \<and> checkAllHosts_run hs v n found v1" by blast
  qed
  show ?thesis
    unfolding checkSeen_flagged seenCollisions_def
    by (subst checkSeen_run.simps)
       (cases "map_of seen ''*''"; cases "map_of seen service";
        simp add: all checkCollisions_run_iff Un_ac)
qed

lemma Check_step_run_iff: "Check_step_run st dr r = (r = Check_step st dr)"
  unfolding Check_step_run_def Check_step_def Let_def checkSeen_run_iff
  by (simp split: prod.split option.split val.split)

lemma Check_loop_run_iff: "Check_loop_run st drs r = (r = Check_loop st drs)"
proof (induction drs arbitrary: st)
  case Nil
  show ?case by (subst Check_loop_run.simps) auto
next
  case (Cons dr drs)
  show ?case
    by (subst Check_loop_run.simps)
       (cases "Check_step st dr"; auto simp: Check_step_run_iff Cons.IH)
qed

lemma Check_run_iff: "Check_run drs r = (r = Check drs)"
  by (simp add: Check_run_def Check_def Check_loop_run_iff)

section \<open>One iteration in closed form; the checker never panics\<close>

lemma FormatHostnameForPrefixSearch_Some:
  "\<exists>fqdn. FormatHostnameForPrefixSearch hostName namespace clusterName = Some fqdn"
proof -
  obtain d0 ds where parts: "strings_Split hostName (CHR ''.'') = d0 # ds"
    using strings_Split_nonempty [of hostName "CHR ''.''"]
    by (cases "strings_Split hostName (CHR ''.'')") auto
  show ?thesis
    by (simp add: FormatHostnameForPrefixSearch_def parts Let_def)
qed

lemma register_fold:
  "map_of seen service = Some inner \<Longrightarrow>
   fold (\<lambda>s r.
           case r of
             None \<Rightarrow> None
           | Some seenHostSubsets \<Rightarrow>
               (case map_of seenHostSubsets service of
                  None \<Rightarrow> None
                | Some inner \<Rightarrow>
                    Some (AList.update service (AList.update (Name s) n inner) seenHostSubsets)))
        found (Some seen)
   = Some (AList.update service (fold (\<lambda>s. AList.update (Name s) n) found inner) seen)"
proof (induction found arbitrary: seen inner)
  case Nil
  then show ?case by (simp add: update_triv)
next
  case (Cons s found)
  let ?seen1 = "AList.update service (AList.update (Name s) n inner) seen"
  have m: "map_of ?seen1 service = Some (AList.update (Name s) n inner)"
    by (simp add: update_conv')
  show ?case
    using Cons.IH [OF m] Cons.prems by (simp add: update_last)
qed

lemma registerSubsets_eq:
  "registerSubsets seen service found n =
     Some (AList.update service
             (fold (\<lambda>s. AList.update (Name s) n) found
                (case map_of seen service of None \<Rightarrow> [] | Some inner \<Rightarrow> inner))
             seen)"
proof (cases "map_of seen service")
  case None
  have m: "map_of (AList.update service [] seen) service = Some []"
    by (simp add: update_conv')
  show ?thesis
    unfolding registerSubsets_def Let_def by (simp add: None register_fold [OF m] update_last)
next
  case (Some inner)
  show ?thesis
    unfolding registerSubsets_def Let_def by (simp add: Some register_fold [OF Some])
qed

lemma map_of_fold_update:
  "map_of (fold (\<lambda>s. AList.update (Name s) n) found inner) x =
     (if x \<in> Name ` set found then Some n else map_of inner x)"
  by (induction found arbitrary: inner) (auto simp: update_conv')

lemma Check_step_skip_nohost:
  "\<forall>h. GetSpec dr ''host'' \<noteq> Some (VString h) \<Longrightarrow> Check_step st dr = Some st"
  by (auto simp: Check_step_def split: prod.splits option.splits val.splits)

lemma Check_step_exempt:
  "GetSpec dr ''host'' = Some (VString h) \<Longrightarrow>
   FormatHostnameForPrefixSearch h (meta_Namespace (GetObjectMeta dr))
     (meta_ClusterName (GetObjectMeta dr)) = Some fqdn \<Longrightarrow>
   enablesNonLocalmTLS dr fqdn \<Longrightarrow>
   Check_step st dr = Some st"
  by (simp add: Check_step_def split: prod.splits)

lemma Check_step_checked:
  "GetSpec dr ''host'' = Some (VString h) \<Longrightarrow>
   FormatHostnameForPrefixSearch h (meta_Namespace (GetObjectMeta dr))
     (meta_ClusterName (GetObjectMeta dr)) = Some fqdn \<Longrightarrow>
   \<not> enablesNonLocalmTLS dr fqdn \<Longrightarrow>
   Check_step (v, seen) dr =
     Some (flagged (seenCollisions (meta_Name (GetObjectMeta dr))
                      (extractSubsets dr (meta_Name (GetObjectMeta dr))) (Service fqdn) seen) ++ v,
           AList.update (Service fqdn)
             (fold (\<lambda>s. AList.update (Name s) (meta_Name (GetObjectMeta dr)))
                (extractSubsets dr (meta_Name (GetObjectMeta dr)))
                (case map_of seen (Service fqdn) of None \<Rightarrow> [] | Some inner \<Rightarrow> inner))
             seen)"
  by (simp add: Check_step_def Let_def checkSeen_flagged registerSubsets_eq)

lemma Check_step_cases:
  obtains (skip) "Check_step (v, seen) dr = Some (v, seen)"
  | (checked) h fqdn where "GetSpec dr ''host'' = Some (VString h)"
      "FormatHostnameForPrefixSearch h (meta_Namespace (GetObjectMeta dr))
         (meta_ClusterName (GetObjectMeta dr)) = Some fqdn"
      "\<not> enablesNonLocalmTLS dr fqdn"
proof (cases "\<exists>h. GetSpec dr ''host'' = Some (VString h)")
  case False
  then show ?thesis using Check_step_skip_nohost [of dr "(v, seen)"] skip by blast
next
  case True
  then obtain h where h: "GetSpec dr ''host'' = Some (VString h)" by blast
  obtain fqdn where f: "FormatHostnameForPrefixSearch h (meta_Namespace (GetObjectMeta dr))
         (meta_ClusterName (GetObjectMeta dr)) = Some fqdn"
    using FormatHostnameForPrefixSearch_Some by blast
  show ?thesis
  proof (cases "enablesNonLocalmTLS dr fqdn")
    case True
    then show ?thesis using Check_step_exempt [OF h f] skip by blast
  next
    case False
    then show ?thesis using checked [OF h f] by blast
  qed
qed

lemma Check_step_flagged:
  "\<exists>S seen'. Check_step (v, seen) dr = Some (flagged S ++ v, seen')"
proof (rule Check_step_cases [of v seen dr])
  assume "Check_step (v, seen) dr = Some (v, seen)"
  then have "Check_step (v, seen) dr = Some (flagged {} ++ v, seen)" by simp
  then show ?thesis by blast
next
  fix h fqdn
  assume "GetSpec dr ''host'' = Some (VString h)"
    and "FormatHostnameForPrefixSearch h (meta_Namespace (GetObjectMeta dr))
           (meta_ClusterName (GetObjectMeta dr)) = Some fqdn"
    and "\<not> enablesNonLocalmTLS dr fqdn"
  then show ?thesis using Check_step_checked [of dr h fqdn v seen] by blast
qed

lemma Check_loop_flagged:
  "\<exists>S seen'. Check_loop (v, seen) drs = Some (flagged S ++ v, seen')"
proof (induction drs arbitrary: v seen)
  case Nil
  have "Check_loop (v, seen) [] = Some (flagged {} ++ v, seen)" by simp
  then show ?case by blast
next
  case (Cons dr drs)
  obtain S seen1 where s: "Check_step (v, seen) dr = Some (flagged S ++ v, seen1)"
    using Check_step_flagged by blast
  obtain T seen2 where t: "Check_loop (flagged S ++ v, seen1) drs = Some (flagged T ++ (flagged S ++ v), seen2)"
    using Cons.IH by blast
  have "Check_loop (v, seen) (dr # drs) = Some (flagged (T \<union> S) ++ v, seen2)"
    using s t by simp
  then show ?case by blast
qed

lemma Check_flagged: "\<exists>S. Check drs = Some (flagged S)"
proof -
  obtain S seen' where "Check_loop (Map.empty, []) drs = Some (flagged S ++ Map.empty, seen')"
    using Check_loop_flagged by blast
  then have "Check drs = Some (flagged S)" by (simp add: Check_def)
  then show ?thesis by blast
qed

lemma Check_loop_append:
  "Check_loop st (xs @ ys) =
     (case Check_loop st xs of None \<Rightarrow> None | Some st' \<Rightarrow> Check_loop st' ys)"
  by (induction xs arbitrary: st) (auto split: option.splits)

section \<open>Collisions through a shared subset name\<close>

lemma flagged_member:
  "n \<in> S \<Longrightarrow> (flagged S ++ v) \<lparr>key_Name = n, key_ObjectType = ''destinationrule''\<rparr> \<noteq> None"
  by (simp add: flagged_def map_add_def DestinationRulesCheckerType_def split: option.splits)

lemma flagged_keep: "v k \<noteq> None \<Longrightarrow> (flagged S ++ v) k \<noteq> None"
  by (auto simp: map_add_def split: option.splits)

lemma flagged_nothing: "(flagged S ++ v) k \<noteq> None \<Longrightarrow> v k = None \<Longrightarrow> key_Name k \<in> S"
  by (auto simp: map_add_def flagged_def split: option.splits if_splits)

lemma collisions_shared:
  "s \<in> set found \<Longrightarrow> map_of existing (Name s) = Some r \<Longrightarrow>
   n \<in> collisions n found existing \<and> r \<in> collisions n found existing"
  unfolding collisions_def by (auto intro!: bexI [of _ s])



lemma seenCollisions_service:
  "map_of seen service = Some previous \<Longrightarrow>
   collisions n found previous \<subseteq> seenCollisions n found service seen"
  unfolding seenCollisions_def by auto

lemma seenCollisions_Nil [simp]: "seenCollisions n found service [] = {}"
  by (simp add: seenCollisions_def)


text \<open>
  The state after one checked object on the empty state, and the findings of a second
  checked object after it.
\<close>

lemma Check_two_checked:
  assumes h1: "GetSpec o1 ''host'' = Some (VString h1)"
    and f1: "FormatHostnameForPrefixSearch h1 (meta_Namespace (GetObjectMeta o1))
               (meta_ClusterName (GetObjectMeta o1)) = Some fqdn1"
    and e1: "\<not> enablesNonLocalmTLS o1 fqdn1"
    and h2: "GetSpec o2 ''host'' = Some (VString h2)"
    and f2: "FormatHostnameForPrefixSearch h2 (meta_Namespace (GetObjectMeta o2))
               (meta_ClusterName (GetObjectMeta o2)) = Some fqdn2"
    and e2: "\<not> enablesNonLocalmTLS o2 fqdn2"
  shows "Check [o1, o2] =
     Some (flagged (seenCollisions (meta_Name (GetObjectMeta o2))
                      (extractSubsets o2 (meta_Name (GetObjectMeta o2))) (Service fqdn2)
                      [(Service fqdn1,
                        fold (\<lambda>s. AList.update (Name s) (meta_Name (GetObjectMeta o1)))
                          (extractSubsets o1 (meta_Name (GetObjectMeta o1))) [])]))"
  unfolding Check_def
  by (simp add: Check_step_checked [OF h1 f1 e1] Check_step_checked [OF h2 f2 e2])

section \<open>Shared and disjoint subsets on one service\<close>

lemma Check_step_total: "\<exists>v' seen'. Check_step (v, seen) dr = Some (v', seen')"
  using Check_step_flagged [of v seen dr] by blast

lemma Check_step_keeps:
  "Check_step (v, seen) dr = Some (v', seen') \<Longrightarrow> v k \<noteq> None \<Longrightarrow> v' k \<noteq> None"
  using Check_step_flagged [of v seen dr] flagged_keep by auto

lemma Check_loop_keeps:
  "Check_loop (v, seen) drs = Some (v', seen') \<Longrightarrow> v k \<noteq> None \<Longrightarrow> v' k \<noteq> None"
  using Check_loop_flagged [of v seen drs] flagged_keep by auto

lemma Check_step_owned:
  assumes own: "owned (v, seen) service b n1"
    and step: "Check_step (v, seen) dr = Some (v', seen')"
  shows "owned (v', seen') service b n1"
proof (rule Check_step_cases [of v seen dr])
  assume "Check_step (v, seen) dr = Some (v, seen)"
  with step own show ?thesis by simp
next
  fix h fqdn
  assume c: "GetSpec dr ''host'' = Some (VString h)"
    "FormatHostnameForPrefixSearch h (meta_Namespace (GetObjectMeta dr))
       (meta_ClusterName (GetObjectMeta dr)) = Some fqdn"
    "\<not> enablesNonLocalmTLS dr fqdn"
  let ?n = "meta_Name (GetObjectMeta dr)"
  let ?found = "extractSubsets dr ?n"
  let ?K = "\<lparr>key_Name = n1, key_ObjectType = ''destinationrule''\<rparr>"
  let ?new = "fold (\<lambda>s. AList.update (Name s) ?n) ?found
                (case map_of seen (Service fqdn) of None \<Rightarrow> [] | Some inner \<Rightarrow> inner)"
  from Check_step_checked [OF c, of v seen] step
  have v': "v' = flagged (seenCollisions ?n ?found (Service fqdn) seen) ++ v"
    and seen': "seen' = AList.update (Service fqdn) ?new seen"
    by simp_all
  from own obtain inner r where inner: "map_of seen service = Some inner"
    and r: "map_of inner b = Some r" and n1: "r = n1 \<or> v ?K \<noteq> None"
    by (auto simp: owned_def)
  show ?thesis
  proof (cases "Service fqdn = service \<and> b \<in> Name ` set ?found")
    case False
    have "map_of seen' service = Some (if Service fqdn = service then ?new else inner)"
      by (simp add: seen' update_conv' inner)
    moreover have "map_of (if Service fqdn = service then ?new else inner) b = Some r"
      using False by (auto simp: map_of_fold_update inner r)
    moreover have "r = n1 \<or> v' ?K \<noteq> None"
      using n1 by (auto simp: v' intro: flagged_keep)
    ultimately show ?thesis unfolding owned_def by auto
  next
    case True
    then obtain s where s: "s \<in> set ?found" "Name s = b" by auto
    have "map_of seen' service = Some ?new"
      using True by (simp add: seen' update_conv')
    moreover have "map_of ?new b = Some ?n"
      using True by (simp add: map_of_fold_update)
    moreover have "v' ?K \<noteq> None"
    proof (cases "v ?K = None")
      case False
      then show ?thesis by (simp add: v' flagged_keep)
    next
      case True
      with n1 have "r = n1" by simp
      with r s have "map_of inner (Name s) = Some n1" by simp
      from collisions_shared [OF s(1) this, of ?n]
      have "n1 \<in> collisions ?n ?found inner" by simp
      moreover have "collisions ?n ?found inner \<subseteq> seenCollisions ?n ?found service seen"
        using inner by (rule seenCollisions_service)
      ultimately have "n1 \<in> seenCollisions ?n ?found (Service fqdn) seen"
        using \<open>Service fqdn = service \<and> b \<in> Name ` set ?found\<close> by auto
      then show ?thesis unfolding v' by (rule flagged_member)
    qed
    ultimately show ?thesis unfolding owned_def by auto
  qed
qed

lemma Check_loop_owned:
  "owned st service b n1 \<Longrightarrow> Check_loop st drs = Some st' \<Longrightarrow> owned st' service b n1"
proof (induction drs arbitrary: st)
  case Nil
  then show ?case by simp
next
  case (Cons dr drs)
  obtain v seen where st: "st = (v, seen)" by (cases st)
  obtain v1 seen1 where s1: "Check_step (v, seen) dr = Some (v1, seen1)"
    using Check_step_total by blast
  have "owned (v1, seen1) service b n1"
    using Cons.prems(1) s1 unfolding st by (rule Check_step_owned)
  moreover have "Check_loop (v1, seen1) drs = Some st'"
    using Cons.prems(2) s1 by (simp add: st)
  ultimately show ?case by (rule Cons.IH)
qed

lemma Check_loop_total: "\<exists>v' seen'. Check_loop (v, seen) drs = Some (v', seen')"
  using Check_loop_flagged [of v seen drs] by blast

lemma shared_subset_flagged:
  assumes h1: "GetSpec o1 ''host'' = Some (VString h1)"
    and f1: "FormatHostnameForPrefixSearch h1 (meta_Namespace (GetObjectMeta o1))
               (meta_ClusterName (GetObjectMeta o1)) = Some fqdn1"
    and e1: "\<not> enablesNonLocalmTLS o1 fqdn1"
    and x1: "b \<in> Name ` set (extractSubsets o1 (meta_Name (GetObjectMeta o1)))"
    and h2: "GetSpec o2 ''host'' = Some (VString h2)"
    and f2: "FormatHostnameForPrefixSearch h2 (meta_Namespace (GetObjectMeta o2))
               (meta_ClusterName (GetObjectMeta o2)) = Some fqdn2"
    and e2: "\<not> enablesNonLocalmTLS o2 fqdn2"
    and x2: "b \<in> Name ` set (extractSubsets o2 (meta_Name (GetObjectMeta o2)))"
    and same: "Service fqdn1 = Service fqdn2"
  shows "\<exists>v. Check (pre @ o1 # mid @ o2 # post) = Some v
           \<and> v \<lparr>key_Name = meta_Name (GetObjectMeta o1), key_ObjectType = ''destinationrule''\<rparr> \<noteq> None
           \<and> v \<lparr>key_Name = meta_Name (GetObjectMeta o2), key_ObjectType = ''destinationrule''\<rparr> \<noteq> None"
proof -
  let ?n1 = "meta_Name (GetObjectMeta o1)" and ?n2 = "meta_Name (GetObjectMeta o2)"
  let ?K1 = "\<lparr>key_Name = ?n1, key_ObjectType = ''destinationrule''\<rparr>"
  let ?K2 = "\<lparr>key_Name = ?n2, key_ObjectType = ''destinationrule''\<rparr>"
  let ?found1 = "extractSubsets o1 ?n1" and ?found2 = "extractSubsets o2 ?n2"
  let ?service = "Service fqdn2"
  obtain v0 seen0 where p0: "Check_loop (Map.empty, []) pre = Some (v0, seen0)"
    using Check_loop_total by blast
  let ?new = "fold (\<lambda>s. AList.update (Name s) ?n1) ?found1
                (case map_of seen0 ?service of None \<Rightarrow> [] | Some inner \<Rightarrow> inner)"
  let ?v1 = "flagged (seenCollisions ?n1 ?found1 ?service seen0) ++ v0"
  let ?seen1 = "AList.update ?service ?new seen0"
  have p1: "Check_step (v0, seen0) o1 = Some (?v1, ?seen1)"
    using Check_step_checked [OF h1 f1 e1, of v0 seen0] by (simp add: same)
  have "map_of ?seen1 ?service = Some ?new" by (simp add: update_conv')
  moreover have "map_of ?new b = Some ?n1" using x1 by (simp add: map_of_fold_update)
  ultimately have own1: "owned (?v1, ?seen1) ?service b ?n1"
    unfolding owned_def by auto
  obtain v2 seen2 where p2: "Check_loop (?v1, ?seen1) mid = Some (v2, seen2)"
    using Check_loop_total by blast
  have "owned (v2, seen2) ?service b ?n1"
    using own1 p2 by (rule Check_loop_owned)
  then obtain inner r where inner: "map_of seen2 ?service = Some inner"
    and r: "map_of inner b = Some r" and n1: "r = ?n1 \<or> v2 ?K1 \<noteq> None"
    by (auto simp: owned_def)
  let ?S = "seenCollisions ?n2 ?found2 ?service seen2"
  obtain seen3 where p3: "Check_step (v2, seen2) o2 = Some (flagged ?S ++ v2, seen3)"
    using Check_step_checked [OF h2 f2 e2, of v2 seen2] by simp
  obtain s where s: "s \<in> set ?found2" "Name s = b" using x2 by auto
  with r have "map_of inner (Name s) = Some r" by simp
  from collisions_shared [OF s(1) this, of ?n2]
  have "?n2 \<in> collisions ?n2 ?found2 inner" "r \<in> collisions ?n2 ?found2 inner" by simp_all
  moreover have "collisions ?n2 ?found2 inner \<subseteq> ?S"
    using inner by (rule seenCollisions_service)
  ultimately have in2: "?n2 \<in> ?S" and inr: "r \<in> ?S" by auto
  have k2: "(flagged ?S ++ v2) ?K2 \<noteq> None" using in2 by (rule flagged_member)
  have k1: "(flagged ?S ++ v2) ?K1 \<noteq> None"
  proof (cases "r = ?n1")
    case True
    with inr have "?n1 \<in> ?S" by simp
    then show ?thesis by (rule flagged_member)
  next
    case False
    with n1 have "v2 ?K1 \<noteq> None" by simp
    then show ?thesis by (rule flagged_keep)
  qed
  obtain v4 seen4 where p4: "Check_loop (flagged ?S ++ v2, seen3) post = Some (v4, seen4)"
    using Check_loop_total by blast
  have "Check_loop (Map.empty, []) (pre @ o1 # mid @ o2 # post) = Some (v4, seen4)"
    by (simp add: Check_loop_append p0 p1 p2 p3 p4)
  then have "Check (pre @ o1 # mid @ o2 # post) = Some v4" by (simp add: Check_def)
  moreover have "v4 ?K1 \<noteq> None" using p4 k1 by (rule Check_loop_keeps)
  moreover have "v4 ?K2 \<noteq> None" using p4 k2 by (rule Check_loop_keeps)
  ultimately show ?thesis by (intro exI [of _ v4] conjI)
qed

lemma collisions_disjoint:
  assumes "''~'' \<notin> Name ` set found" and "\<forall>s \<in> set found. map_of existing (Name s) = None"
    and "map_of existing ''~'' = None"
  shows "collisions n found existing = {}"
proof -
  have "\<not> (length found = 1 \<and> Name (found ! 0) = ''~'')"
  proof
    assume a: "length found = 1 \<and> Name (found ! 0) = ''~''"
    then have "found ! 0 \<in> set found" by simp
    then have "Name (found ! 0) \<in> Name ` set found" by (rule imageI)
    with a assms(1) show False by simp
  qed
  with assms(2,3) show ?thesis by (auto simp: collisions_def)
qed

lemma disjoint_subsets_nothing:
  assumes h1: "GetSpec o1 ''host'' = Some (VString h1)"
    and f1: "FormatHostnameForPrefixSearch h1 (meta_Namespace (GetObjectMeta o1))
               (meta_ClusterName (GetObjectMeta o1)) = Some fqdn1"
    and e1: "\<not> enablesNonLocalmTLS o1 fqdn1"
    and h2: "GetSpec o2 ''host'' = Some (VString h2)"
    and f2: "FormatHostnameForPrefixSearch h2 (meta_Namespace (GetObjectMeta o2))
               (meta_ClusterName (GetObjectMeta o2)) = Some fqdn2"
    and e2: "\<not> enablesNonLocalmTLS o2 fqdn2"
    and disj: "Name ` set (extractSubsets o1 (meta_Name (GetObjectMeta o1))) \<inter>
               Name ` set (extractSubsets o2 (meta_Name (GetObjectMeta o2))) = {}"
    and t1: "''~'' \<notin> Name ` set (extractSubsets o1 (meta_Name (GetObjectMeta o1)))"
    and t2: "''~'' \<notin> Name ` set (extractSubsets o2 (meta_Name (GetObjectMeta o2)))"
  shows "Check [o1, o2] = Some Map.empty"
proof -
  let ?n1 = "meta_Name (GetObjectMeta o1)" and ?n2 = "meta_Name (GetObjectMeta o2)"
  let ?found1 = "extractSubsets o1 ?n1" and ?found2 = "extractSubsets o2 ?n2"
  let ?inner = "fold (\<lambda>s. AList.update (Name s) ?n1) ?found1 []"
  have "\<forall>s \<in> set ?found2. map_of ?inner (Name s) = None"
    using disj by (auto simp: map_of_fold_update)
  moreover have "map_of ?inner ''~'' = None"
    using t1 by (simp add: map_of_fold_update)
  ultimately have "collisions ?n2 ?found2 ?inner = {}"
    using t2 collisions_disjoint by blast
  then have "seenCollisions ?n2 ?found2 (Service fqdn2) [(Service fqdn1, ?inner)] = {}"
    by (simp add: seenCollisions_def)
  with Check_two_checked [OF h1 f1 e1 h2 f2 e2] show ?thesis
    by (simp add: flagged_empty)
qed

section \<open>The index stays a map of maps\<close>

lemma set_update_subset: "set (AList.update k v al) \<subseteq> insert (k, v) (set al)"
  by (induction al) auto

lemma distinct_fold_update:
  "distinct (map fst inner) \<Longrightarrow>
   distinct (map fst (fold (\<lambda>s. AList.update (Name s) n) found inner))"
  by (induction found arbitrary: inner) (simp_all add: distinct_update)

lemma index_wf_lookup:
  "index_wf seen \<Longrightarrow> map_of seen k = Some inner \<Longrightarrow> distinct (map fst inner)"
  unfolding index_wf_def using map_of_SomeD by fastforce

lemma index_wf_update:
  assumes "index_wf seen" and "distinct (map fst inner)"
  shows "index_wf (AList.update k inner seen)"
  unfolding index_wf_def
proof (intro conjI ballI)
  show "distinct (map fst (AList.update k inner seen))"
    using assms(1) by (simp add: index_wf_def distinct_update)
next
  fix kh
  assume "kh \<in> set (AList.update k inner seen)"
  then have "kh = (k, inner) \<or> kh \<in> set seen" using set_update_subset by fastforce
  then show "distinct (map fst (snd kh))"
    using assms by (auto simp: index_wf_def)
qed

lemma Check_step_index_wf:
  assumes "index_wf seen" and "Check_step (v, seen) dr = Some (v', seen')"
  shows "index_wf seen'"
proof (rule Check_step_cases [of v seen dr])
  assume "Check_step (v, seen) dr = Some (v, seen)"
  with assms show ?thesis by simp
next
  fix h fqdn
  assume c: "GetSpec dr ''host'' = Some (VString h)"
    "FormatHostnameForPrefixSearch h (meta_Namespace (GetObjectMeta dr))
       (meta_ClusterName (GetObjectMeta dr)) = Some fqdn"
    "\<not> enablesNonLocalmTLS dr fqdn"
  let ?inner = "case map_of seen (Service fqdn) of None \<Rightarrow> [] | Some inner \<Rightarrow> inner"
  have "distinct (map fst ?inner)"
    using assms(1) index_wf_lookup by (auto split: option.splits)
  then have "index_wf (AList.update (Service fqdn)
                (fold (\<lambda>s. AList.update (Name s) (meta_Name (GetObjectMeta dr)))
                   (extractSubsets dr (meta_Name (GetObjectMeta dr))) ?inner) seen)"
    using assms(1) by (intro index_wf_update distinct_fold_update)
  with Check_step_checked [OF c, of v seen] assms(2) show ?thesis by simp
qed

lemma Check_loop_index_wf:
  "index_wf (snd st) \<Longrightarrow> Check_loop st drs = Some st' \<Longrightarrow> index_wf (snd st')"
proof (induction drs arbitrary: st)
  case Nil
  then show ?case by simp
next
  case (Cons dr drs)
  obtain v seen where st: "st = (v, seen)" by (cases st)
  obtain v1 seen1 where s1: "Check_step (v, seen) dr = Some (v1, seen1)"
    using Check_step_total by blast
  have "index_wf (snd (v1, seen1))"
    using Cons.prems(1) s1 Check_step_index_wf unfolding st by auto
  moreover have "Check_loop (v1, seen1) drs = Some st'"
    using Cons.prems(2) s1 by (simp add: st)
  ultimately show ?case by (rule Cons.IH)
qed

lemma Check_index_wf:
  "Check_loop (Map.empty, []) drs = Some st' \<Longrightarrow> index_wf (snd st')"
  using Check_loop_index_wf [of "(Map.empty, [])" drs st'] by (simp add: index_wf_def)

section \<open>Only the names of the input are reported\<close>

lemma collisions_subset:
  "collisions n found existing \<subseteq> insert n (snd ` set existing)"
proof -
  have "map_of existing x = Some r \<Longrightarrow> r \<in> snd ` set existing" for x r
    using map_of_SomeD by force
  then show ?thesis
    by (auto simp: collisions_def split: option.splits if_splits)
qed

lemma seenCollisions_subset:
  "seenCollisions n found service seen \<subseteq> insert n (owners seen)"
proof -
  have entry: "collisions n found h \<subseteq> insert n (owners seen)" if "(k, h) \<in> set seen" for k h
  proof -
    have "snd ` set h \<subseteq> owners seen" using that by (force simp: owners_def)
    then show ?thesis using collisions_subset [of n found h] by blast
  qed
  have look: "collisions n found h \<subseteq> insert n (owners seen)" if "map_of seen k = Some h" for k h
    using entry map_of_SomeD [OF that] by blast
  have a: "(\<Union>kh \<in> set seen. collisions n found (snd kh)) \<subseteq> insert n (owners seen)"
  proof (rule UN_least)
    fix kh
    assume "kh \<in> set seen"
    then show "collisions n found (snd kh) \<subseteq> insert n (owners seen)"
      using entry [of "fst kh" "snd kh"] by simp
  qed
  have b: "(case map_of seen k of Some previous \<Rightarrow> collisions n found previous | None \<Rightarrow> {})
             \<subseteq> insert n (owners seen)" for k
    using look [of k] by (cases "map_of seen k") simp_all
  show ?thesis
    unfolding seenCollisions_def
    using a b [of "''*''"] b [of service] by simp
qed

lemma set_fold_update:
  "snd ` set (fold (\<lambda>s. AList.update (Name s) n) found inner) \<subseteq> insert n (snd ` set inner)"
proof (induction found arbitrary: inner)
  case Nil
  show ?case by auto
next
  case (Cons s found)
  have "snd ` set (AList.update (Name s) n inner) \<subseteq> insert n (snd ` set inner)"
    using set_update_subset [of "Name s" n inner] by force
  with Cons.IH [of "AList.update (Name s) n inner"] show ?case by auto
qed

lemma owners_update:
  "owners (AList.update k h seen) \<subseteq> snd ` set h \<union> owners seen"
  using set_update_subset [of k h seen] by (fastforce simp: owners_def)

lemma owners_lookup:
  "snd ` set (case map_of seen k of None \<Rightarrow> [] | Some inner \<Rightarrow> inner) \<subseteq> owners seen"
proof (cases "map_of seen k")
  case None
  then show ?thesis by simp
next
  case (Some inner)
  then have "(k, inner) \<in> set seen" by (rule map_of_SomeD)
  then show ?thesis using Some by (force simp: owners_def)
qed

lemma subset_insert_trans: "A \<subseteq> insert n B \<Longrightarrow> B \<subseteq> N \<Longrightarrow> n \<in> N \<Longrightarrow> A \<subseteq> N"
  by blast

lemma subset_Un_trans: "C \<subseteq> A \<union> B \<Longrightarrow> A \<subseteq> N \<Longrightarrow> B \<subseteq> N \<Longrightarrow> C \<subseteq> N"
  by blast

lemma Check_step_names:
  assumes step: "Check_step (v, seen) dr = Some (v', seen')"
    and own: "owners seen \<subseteq> N" and n: "meta_Name (GetObjectMeta dr) \<in> N"
  shows "owners seen' \<subseteq> N \<and> (\<forall>k. v' k \<noteq> None \<longrightarrow> v k \<noteq> None \<or> key_Name k \<in> N)"
proof (rule Check_step_cases [of v seen dr])
  assume "Check_step (v, seen) dr = Some (v, seen)"
  with step own show ?thesis by simp
next
  fix h fqdn
  assume c: "GetSpec dr ''host'' = Some (VString h)"
    "FormatHostnameForPrefixSearch h (meta_Namespace (GetObjectMeta dr))
       (meta_ClusterName (GetObjectMeta dr)) = Some fqdn"
    "\<not> enablesNonLocalmTLS dr fqdn"
  let ?n = "meta_Name (GetObjectMeta dr)"
  let ?found = "extractSubsets dr ?n"
  let ?S = "seenCollisions ?n ?found (Service fqdn) seen"
  let ?new = "fold (\<lambda>s. AList.update (Name s) ?n) ?found
                (case map_of seen (Service fqdn) of None \<Rightarrow> [] | Some inner \<Rightarrow> inner)"
  from Check_step_checked [OF c, of v seen] step
  have v': "v' = flagged ?S ++ v" and seen': "seen' = AList.update (Service fqdn) ?new seen"
    by simp_all
  let ?inner = "case map_of seen (Service fqdn) of None \<Rightarrow> [] | Some inner \<Rightarrow> inner"
  have "snd ` set ?new \<subseteq> insert ?n (snd ` set ?inner)"
    by (rule set_fold_update)
  moreover have "snd ` set ?inner \<subseteq> owners seen"
    by (rule owners_lookup)
  ultimately have "snd ` set ?new \<subseteq> insert ?n (owners seen)"
    by (rule subset_trans [OF _ insert_mono])
  then have new: "snd ` set ?new \<subseteq> N" using own n by (rule subset_insert_trans)
  have "owners seen' \<subseteq> snd ` set ?new \<union> owners seen"
    unfolding seen' by (rule owners_update)
  then have o: "owners seen' \<subseteq> N" using new own by (rule subset_Un_trans)
  have "?S \<subseteq> insert ?n (owners seen)" by (rule seenCollisions_subset)
  then have S: "?S \<subseteq> N" using own n by (rule subset_insert_trans)
  have keep: "v k \<noteq> None \<or> key_Name k \<in> N" if "v' k \<noteq> None" for k
  proof (cases "v k = None")
    case True
    from that have "(flagged ?S ++ v) k \<noteq> None" by (simp add: v')
    from flagged_nothing [OF this True] have "key_Name k \<in> ?S" .
    with S have "key_Name k \<in> N" by (rule subsetD)
    then show ?thesis by simp
  next
    case False
    then show ?thesis by simp
  qed
  show ?thesis
  proof (intro conjI allI impI)
    show "owners seen' \<subseteq> N" by (rule o)
  next
    fix k
    assume "v' k \<noteq> None"
    then show "v k \<noteq> None \<or> key_Name k \<in> N" by (rule keep)
  qed
qed

lemma Check_loop_names:
  "Check_loop (v, seen) drs = Some (v', seen') \<Longrightarrow> owners seen \<subseteq> N \<Longrightarrow>
   (\<lambda>d. meta_Name (GetObjectMeta d)) ` set drs \<subseteq> N \<Longrightarrow>
   v' k \<noteq> None \<Longrightarrow> v k \<noteq> None \<or> key_Name k \<in> N"
proof (induction drs arbitrary: v seen)
  case Nil
  then show ?case by simp
next
  case (Cons dr drs)
  obtain v1 seen1 where s1: "Check_step (v, seen) dr = Some (v1, seen1)"
    using Check_step_total by blast
  have n: "meta_Name (GetObjectMeta dr) \<in> N" using Cons.prems(3) by simp
  from Check_step_names [OF s1 Cons.prems(2) n]
  have own1: "owners seen1 \<subseteq> N" and keep: "\<forall>k. v1 k \<noteq> None \<longrightarrow> v k \<noteq> None \<or> key_Name k \<in> N"
    by simp_all
  have "Check_loop (v1, seen1) drs = Some (v', seen')"
    using Cons.prems(1) s1 by simp
  note loop = this
  have "(\<lambda>d. meta_Name (GetObjectMeta d)) ` set drs \<subseteq> N"
    using Cons.prems(3) by simp
  with loop own1 have "v1 k \<noteq> None \<or> key_Name k \<in> N"
    using Cons.prems(4) by (rule Cons.IH)
  then show ?case
  proof
    assume "v1 k \<noteq> None"
    with keep show ?thesis by simp
  next
    assume "key_Name k \<in> N"
    then show ?thesis by simp
  qed
qed

lemma Check_names:
  "Check drs = Some v \<Longrightarrow> v k \<noteq> None \<Longrightarrow>
   key_Name k \<in> (\<lambda>d. meta_Name (GetObjectMeta d)) ` set drs"
proof -
  assume c: "Check drs = Some v" and k: "v k \<noteq> None"
  then obtain seen' where loop: "Check_loop (Map.empty, []) drs = Some (v, seen')"
    by (auto simp: Check_def)
  have own: "owners [] \<subseteq> (\<lambda>d. meta_Name (GetObjectMeta d)) ` set drs"
    by (simp add: owners_def)
  have names: "(\<lambda>d. meta_Name (GetObjectMeta d)) ` set drs
                 \<subseteq> (\<lambda>d. meta_Name (GetObjectMeta d)) ` set drs" by simp
  from Check_loop_names [OF loop own names k] show ?thesis by simp
qed

lemmas eval_simps = Check_def Check_step_def checkSeen_flagged registerSubsets_eq Let_def
  FormatHostnameForPrefixSearch_def enablesNonLocalmTLS_def extractSubsets_def
  seenCollisions_def collisions_def

section \<open>Determinism and the shape of the recorded validations\<close>

text \<open>
  C9. On every input some run of \<^verbatim>\<open>Check\<close> returns validations, and any two runs on
  the same input end in the same result, whatever order each range over
  \<^verbatim>\<open>seenHostSubsets\<close> and over \<^verbatim>\<open>existing\<close> takes.
\<close>

theorem Check_run_deterministic:
  "(\<exists>validations. Check_run drs (Some validations)) \<and>
   (\<forall>r1 r2. Check_run drs r1 \<longrightarrow> Check_run drs r2 \<longrightarrow> r1 = r2)"
proof -
  obtain S where "Check drs = Some (flagged S)" using Check_flagged by blast
  then have "Check_run drs (Some (flagged S))" by (simp add: Check_run_iff)
  then have "\<exists>validations. Check_run drs (Some validations)" by blast
  moreover have "\<forall>r1 r2. Check_run drs r1 \<longrightarrow> Check_run drs r2 \<longrightarrow> r1 = r2"
    by (simp add: Check_run_iff)
  ultimately show ?thesis ..
qed

theorem Check_run_deterministic_witness:
  "\<exists>v. Check_run
         [\<lparr>GetObjectMeta = \<lparr>meta_Name = ''dr1'', meta_Namespace = ''ns'', meta_ClusterName = []\<rparr>,
           GetSpec = [''host'' \<mapsto> VString ''reviews'']\<rparr>,
          \<lparr>GetObjectMeta = \<lparr>meta_Name = ''dr2'', meta_Namespace = ''ns'', meta_ClusterName = []\<rparr>,
           GetSpec = [''host'' \<mapsto> VString ''ratings'']\<rparr>,
          \<lparr>GetObjectMeta = \<lparr>meta_Name = ''dr3'', meta_Namespace = ''ns'', meta_ClusterName = []\<rparr>,
           GetSpec = [''host'' \<mapsto> VString ''*.ns'']\<rparr>] (Some v)
      \<and> v = addError Map.empty [''dr3'', ''dr1'', ''dr2'']"
proof -
  define W where "W =
         [\<lparr>GetObjectMeta = \<lparr>meta_Name = ''dr1'', meta_Namespace = ''ns'', meta_ClusterName = []\<rparr>,
           GetSpec = [''host'' \<mapsto> VString ''reviews'']\<rparr>,
          \<lparr>GetObjectMeta = \<lparr>meta_Name = ''dr2'', meta_Namespace = ''ns'', meta_ClusterName = []\<rparr>,
           GetSpec = [''host'' \<mapsto> VString ''ratings'']\<rparr>,
          \<lparr>GetObjectMeta = \<lparr>meta_Name = ''dr3'', meta_Namespace = ''ns'', meta_ClusterName = []\<rparr>,
           GetSpec = [''host'' \<mapsto> VString ''*.ns'']\<rparr>]"
  have val: "Check W = Some (addError Map.empty [''dr3'', ''dr1'', ''dr2''])"
    unfolding W_def by (simp add: eval_simps addError_flagged insert_commute)
  have run: "Check_run W (Check W)" by (simp add: Check_run_iff)
  obtain v where v: "Check_run W (Some v)"
    using Check_run_deterministic [of W] by blast
  have "Check W = Some v"
    using Check_run_deterministic [of W] run v by blast
  with val have "v = addError Map.empty [''dr3'', ''dr1'', ''dr2'']" by simp
  with v have "\<exists>v. Check_run W (Some v) \<and> v = addError Map.empty [''dr3'', ''dr1'', ''dr2'']"
    by blast
  then show ?thesis unfolding W_def .
qed

text \<open>
  C10. Every validation that a run of \<^verbatim>\<open>Check\<close> stores has \<^verbatim>\<open>Valid\<close> set to true, the
  object type \<^verbatim>\<open>destinationrule\<close> and exactly one check, the one built from the code
  \<^verbatim>\<open>destinationrules.multimatch\<close> and the path \<^verbatim>\<open>spec/host\<close>; it is stored under the
  key of its own name and that object type.
\<close>

theorem Check_validation_shape:
  "Check_run drs (Some validations) \<Longrightarrow> validations key = Some x \<Longrightarrow>
   Valid x \<and> val_ObjectType x = ''destinationrule'' \<and>
   Checks x = [Build ''destinationrules.multimatch'' ''spec/host''] \<and>
   val_Name x = key_Name key \<and> key_ObjectType key = ''destinationrule''"
proof -
  assume run: "Check_run drs (Some validations)" and x: "validations key = Some x"
  obtain S where "Check drs = Some (flagged S)" using Check_flagged by blast
  with run have "validations = flagged S" by (simp add: Check_run_iff)
  with x have "flagged S key = Some x" by simp
  then show ?thesis
    by (auto simp: flagged_def DestinationRulesCheckerType_def split: if_splits)
qed

theorem Check_validation_shape_witness:
  "Check_run
     [\<lparr>GetObjectMeta = \<lparr>meta_Name = ''dr1'', meta_Namespace = ''ns'', meta_ClusterName = []\<rparr>,
       GetSpec = [''host'' \<mapsto> VString ''reviews'']\<rparr>,
      \<lparr>GetObjectMeta = \<lparr>meta_Name = ''dr2'', meta_Namespace = ''ns'', meta_ClusterName = []\<rparr>,
       GetSpec = [''host'' \<mapsto> VString ''reviews.ns'']\<rparr>]
     (Some (addError Map.empty [''dr2'', ''dr1'']))
   \<and> addError Map.empty [''dr2'', ''dr1'']
        \<lparr>key_Name = ''dr1'', key_ObjectType = ''destinationrule''\<rparr>
      = Some \<lparr>val_Name = ''dr1'', val_ObjectType = ''destinationrule'', Valid = True,
               Checks = [\<lparr>chk_Code = ''destinationrules.multimatch'', chk_Path = ''spec/host''\<rparr>]\<rparr>
   \<and> Valid \<lparr>val_Name = ''dr1'', val_ObjectType = ''destinationrule'', Valid = True,
               Checks = [\<lparr>chk_Code = ''destinationrules.multimatch'', chk_Path = ''spec/host''\<rparr>]\<rparr>"
proof -
  define W where "W =
     [\<lparr>GetObjectMeta = \<lparr>meta_Name = ''dr1'', meta_Namespace = ''ns'', meta_ClusterName = []\<rparr>,
       GetSpec = [''host'' \<mapsto> VString ''reviews'']\<rparr>,
      \<lparr>GetObjectMeta = \<lparr>meta_Name = ''dr2'', meta_Namespace = ''ns'', meta_ClusterName = []\<rparr>,
       GetSpec = [''host'' \<mapsto> VString ''reviews.ns'']\<rparr>]"
  define V where "V = addError Map.empty [''dr2'', ''dr1'']"
  define K where "K = \<lparr>key_Name = ''dr1'', key_ObjectType = ''destinationrule''\<rparr>"
  define X where "X = \<lparr>val_Name = ''dr1'', val_ObjectType = ''destinationrule'', Valid = True,
               Checks = [\<lparr>chk_Code = ''destinationrules.multimatch'', chk_Path = ''spec/host''\<rparr>]\<rparr>"
  have "Check W = Some V"
    unfolding W_def V_def by (simp add: eval_simps addError_flagged insert_commute)
  then have run: "Check_run W (Some V)" by (simp add: Check_run_iff)
  have x: "V K = Some X"
    unfolding V_def K_def X_def
    by (simp add: addError_flagged flagged_def DestinationRulesCheckerType_def Build_def)
  from Check_validation_shape [OF run x] have "Valid X" by blast
  with run x show ?thesis unfolding W_def V_def K_def X_def by blast
qed

section \<open>The empty subset list\<close>

text \<open>
  C1. The extractor is to return exactly the one sentinel subset when the \<^verbatim>\<open>subsets\<close>
  attribute is absent, is an empty list or has no entry with a string-typed name, and
  otherwise one subset per entry with a string-typed name. The code returns the sentinel
  for the absent attribute, but for the empty list it returns no subset at all. The
  rule \<^verbatim>\<open>drE\<close> has the empty list and the rule \<^verbatim>\<open>drN\<close> has no \<^verbatim>\<open>subsets\<close> attribute,
  both on the host \<^verbatim>\<open>reviews\<close>. In the order \<^verbatim>\<open>drE\<close>, \<^verbatim>\<open>drN\<close> nothing is reported: the
  registration of \<^verbatim>\<open>drE\<close> claims nothing. In the order \<^verbatim>\<open>drN\<close>, \<^verbatim>\<open>drE\<close> both are
  reported: \<^verbatim>\<open>checkCollisions\<close> finds the sentinel of \<^verbatim>\<open>drN\<close> in \<^verbatim>\<open>existing\<close> and
  records the pair whatever \<^verbatim>\<open>drE\<close> declares.
\<close>

theorem extractSubsets_empty_list_order_dependent:
  "extractSubsets
     \<lparr>GetObjectMeta = \<lparr>meta_Name = ''drE'', meta_Namespace = ''ns'', meta_ClusterName = []\<rparr>,
      GetSpec = [''host'' \<mapsto> VString ''reviews'', ''subsets'' \<mapsto> VSlice []]\<rparr> ''drE''
     = []
   \<and> extractSubsets
     \<lparr>GetObjectMeta = \<lparr>meta_Name = ''drN'', meta_Namespace = ''ns'', meta_ClusterName = []\<rparr>,
      GetSpec = [''host'' \<mapsto> VString ''reviews'']\<rparr> ''drN''
     = [\<lparr>Name = ''~'', RuleName = ''drN''\<rparr>]
   \<and> Check_run
     [\<lparr>GetObjectMeta = \<lparr>meta_Name = ''drE'', meta_Namespace = ''ns'', meta_ClusterName = []\<rparr>,
       GetSpec = [''host'' \<mapsto> VString ''reviews'', ''subsets'' \<mapsto> VSlice []]\<rparr>,
      \<lparr>GetObjectMeta = \<lparr>meta_Name = ''drN'', meta_Namespace = ''ns'', meta_ClusterName = []\<rparr>,
       GetSpec = [''host'' \<mapsto> VString ''reviews'']\<rparr>]
     (Some Map.empty)
   \<and> Check_run
     [\<lparr>GetObjectMeta = \<lparr>meta_Name = ''drN'', meta_Namespace = ''ns'', meta_ClusterName = []\<rparr>,
       GetSpec = [''host'' \<mapsto> VString ''reviews'']\<rparr>,
      \<lparr>GetObjectMeta = \<lparr>meta_Name = ''drE'', meta_Namespace = ''ns'', meta_ClusterName = []\<rparr>,
       GetSpec = [''host'' \<mapsto> VString ''reviews'', ''subsets'' \<mapsto> VSlice []]\<rparr>]
     (Some (addError Map.empty [''drE'', ''drN'']))"
  by (simp add: Check_run_iff eval_simps addError_flagged insert_commute flagged_empty)

section \<open>The sentinel name is not reserved\<close>

text \<open>
  C2, as the claim states it, fails: the extractor copies a declared name as it is, so the
  declared subset name \<^verbatim>\<open>~\<close> gives a subset that bears the sentinel name, and
  \<^verbatim>\<open>checkCollisions\<close> takes it for the sentinel. An object that declares the one subset
  \<^verbatim>\<open>~\<close> is reported together with an earlier object on the same host that declares only
  the subset \<^verbatim>\<open>v1\<close>.
\<close>

theorem extractSubsets_declared_sentinel_counterexample:
  "extractSubsets
     \<lparr>GetObjectMeta = \<lparr>meta_Name = ''dr2'', meta_Namespace = ''ns'', meta_ClusterName = []\<rparr>,
      GetSpec = [''host'' \<mapsto> VString ''reviews'',
                 ''subsets'' \<mapsto> VSlice [VMap [''name'' \<mapsto> VString ''~'']]]\<rparr> ''dr2''
   = [\<lparr>Name = ''~'', RuleName = ''dr2''\<rparr>]
   \<and> Check_run
     [\<lparr>GetObjectMeta = \<lparr>meta_Name = ''dr1'', meta_Namespace = ''ns'', meta_ClusterName = []\<rparr>,
       GetSpec = [''host'' \<mapsto> VString ''reviews'',
                  ''subsets'' \<mapsto> VSlice [VMap [''name'' \<mapsto> VString ''v1'']]]\<rparr>,
      \<lparr>GetObjectMeta = \<lparr>meta_Name = ''dr2'', meta_Namespace = ''ns'', meta_ClusterName = []\<rparr>,
       GetSpec = [''host'' \<mapsto> VString ''reviews'',
                  ''subsets'' \<mapsto> VSlice [VMap [''name'' \<mapsto> VString ''~'']]]\<rparr>]
     (Some (addError Map.empty [''dr2'', ''dr1'']))"
  by (simp add: Check_run_iff eval_simps addError_flagged insert_commute)

text \<open>
  C2, amended. The names of the subsets produced from a declared list are exactly the
  string-typed names of its entries, so a subset produced from a declared entry bears the
  sentinel name exactly when an entry declares the name \<^verbatim>\<open>~\<close> itself; the extractor
  reserves nothing.
\<close>

theorem extractSubsets_sentinel_iff:
  "GetSpec dr ''subsets'' = Some (VSlice es) \<Longrightarrow>
   Name ` set (extractSubsets dr n) =
     {x. \<exists>element. VMap element \<in> set es \<and> element ''name'' = Some (VString x)}
   \<and> ((\<exists>s \<in> set (extractSubsets dr n). Name s = ''~'') =
      (\<exists>element. VMap element \<in> set es \<and> element ''name'' = Some (VString ''~'')))"
proof -
  assume a: "GetSpec dr ''subsets'' = Some (VSlice es)"
  have names: "Name ` set (extractSubsets dr n) =
     {x. \<exists>element. VMap element \<in> set es \<and> element ''name'' = Some (VString x)}"
    by (rule extractSubsets_names [OF a])
  have "(\<exists>s \<in> set (extractSubsets dr n). Name s = ''~'') =
        (''~'' \<in> Name ` set (extractSubsets dr n))" by force
  also have "\<dots> = (\<exists>element. VMap element \<in> set es \<and> element ''name'' = Some (VString ''~''))"
    unfolding names by simp
  finally show ?thesis using names by blast
qed

theorem extractSubsets_sentinel_iff_witness:
  "Name ` set (extractSubsets
       \<lparr>GetObjectMeta = \<lparr>meta_Name = ''dr2'', meta_Namespace = ''ns'', meta_ClusterName = []\<rparr>,
        GetSpec = [''subsets'' \<mapsto> VSlice [VMap [''name'' \<mapsto> VString ''v1''], VOther]]\<rparr>
       ''dr2'') = {''v1''}
   \<and> \<not> (\<exists>s \<in> set (extractSubsets
       \<lparr>GetObjectMeta = \<lparr>meta_Name = ''dr2'', meta_Namespace = ''ns'', meta_ClusterName = []\<rparr>,
        GetSpec = [''subsets'' \<mapsto> VSlice [VMap [''name'' \<mapsto> VString ''v1''], VOther]]\<rparr>
       ''dr2''). Name s = ''~'')"
proof -
  have b: "GetSpec \<lparr>GetObjectMeta = \<lparr>meta_Name = ''dr2'', meta_Namespace = ''ns'', meta_ClusterName = []\<rparr>,
        GetSpec = [''subsets'' \<mapsto> VSlice [VMap [''name'' \<mapsto> VString ''v1''], VOther]]\<rparr> ''subsets''
     = Some (VSlice [VMap [''name'' \<mapsto> VString ''v1''], VOther])" by simp
  have c: "{x. \<exists>element. VMap element \<in> set [VMap [''name'' \<mapsto> VString ''v1''], VOther]
                 \<and> element ''name'' = Some (VString x)} = {''v1''}"
    by auto
  have d: "(\<exists>element. VMap element \<in> set [VMap [''name'' \<mapsto> VString ''v1''], VOther]
                 \<and> element ''name'' = Some (VString ''~'')) = False"
    by auto
  show ?thesis
    using extractSubsets_sentinel_iff [OF b, of "''dr2''"] unfolding c d by simp
qed

section \<open>The exemption is a full bypass, for wildcard hosts only\<close>

lemma Check_loop_remove:
  "(\<And>st. Check_step st dr = Some st) \<Longrightarrow>
   Check_loop st (pre @ dr # post) = Check_loop st (pre @ post)"
  by (simp add: Check_loop_append split: option.splits)

text \<open>
  C7, as the claim states it, fails: an object with host \<^verbatim>\<open>svc.ns\<close> and
  \<^verbatim>\<open>trafficPolicy.tls.mode = ISTIO_MUTUAL\<close> has the service \<^verbatim>\<open>svc\<close>, not the wildcard, so
  the exemption filter rejects it and it is checked like any other object. Before a
  second object on the same host without subsets, both are reported; without it, nothing
  is.
\<close>

theorem local_mtls_not_exempt_counterexample:
  "Check_run
     [\<lparr>GetObjectMeta = \<lparr>meta_Name = ''dr1'', meta_Namespace = ''ns'', meta_ClusterName = []\<rparr>,
       GetSpec = [''host'' \<mapsto> VString ''svc.ns'',
                  ''trafficPolicy'' \<mapsto>
                     VMap [''tls'' \<mapsto> VMap [''mode'' \<mapsto> VString ''ISTIO_MUTUAL'']]]\<rparr>,
      \<lparr>GetObjectMeta = \<lparr>meta_Name = ''dr2'', meta_Namespace = ''ns'', meta_ClusterName = []\<rparr>,
       GetSpec = [''host'' \<mapsto> VString ''svc.ns'']\<rparr>]
     (Some (addError Map.empty [''dr2'', ''dr1'']))
   \<and> addError Map.empty [''dr2'', ''dr1'']
        \<lparr>key_Name = ''dr1'', key_ObjectType = ''destinationrule''\<rparr> \<noteq> None
   \<and> addError Map.empty [''dr2'', ''dr1'']
        \<lparr>key_Name = ''dr2'', key_ObjectType = ''destinationrule''\<rparr> \<noteq> None
   \<and> Check_run
        [\<lparr>GetObjectMeta = \<lparr>meta_Name = ''dr2'', meta_Namespace = ''ns'', meta_ClusterName = []\<rparr>,
          GetSpec = [''host'' \<mapsto> VString ''svc.ns'']\<rparr>]
        (Some Map.empty)"
  by (simp add: Check_run_iff eval_simps addError_flagged insert_commute flagged_def
        DestinationRulesCheckerType_def)

text \<open>
  C7, amended. An object that the exemption filter accepts (its host has the wildcard
  service, as \<^verbatim>\<open>*\<close> or \<^verbatim>\<open>*.ns\<close>, and its \<^verbatim>\<open>trafficPolicy.tls.mode\<close> is
  \<^verbatim>\<open>ISTIO_MUTUAL\<close>) is never entered into the collision index nor checked against it:
  its loop iteration leaves the validations and the index as they are. So removing it
  from any input sequence leaves the result of \<^verbatim>\<open>Check\<close> unchanged, and it is reported
  in no finding unless another object of the input bears its name.
\<close>

theorem exempt_object_bypassed:
  assumes "GetSpec dr ''host'' = Some (VString h)"
    and "FormatHostnameForPrefixSearch h (meta_Namespace (GetObjectMeta dr))
           (meta_ClusterName (GetObjectMeta dr)) = Some fqdn"
    and "enablesNonLocalmTLS dr fqdn"
  shows "Check_step_run st dr r = (r = Some st) \<and>
         Check_run (pre @ dr # post) r' = Check_run (pre @ post) r' \<and>
         (Check_run (pre @ dr # post) (Some v) \<and>
          meta_Name (GetObjectMeta dr) \<notin> (\<lambda>d. meta_Name (GetObjectMeta d)) ` set (pre @ post)
          \<longrightarrow> v \<lparr>key_Name = meta_Name (GetObjectMeta dr), key_ObjectType = ''destinationrule''\<rparr>
                = None)"
proof (intro conjI impI)
  have step: "Check_step st dr = Some st" for st
    using assms by (rule Check_step_exempt)
  show "Check_step_run st dr r = (r = Some st)"
    by (simp add: Check_step_run_iff step)
  show same: "Check_run (pre @ dr # post) r' = Check_run (pre @ post) r'" for r'
    by (simp add: Check_run_iff Check_def Check_loop_remove [OF step])
  assume a: "Check_run (pre @ dr # post) (Some v) \<and>
          meta_Name (GetObjectMeta dr) \<notin> (\<lambda>d. meta_Name (GetObjectMeta d)) ` set (pre @ post)"
  then have "Check_run (pre @ dr # post) (Some v)" by simp
  then have "Check_run (pre @ post) (Some v)" unfolding same .
  then have "Check (pre @ post) = Some v" by (simp add: Check_run_iff)
  from Check_names [OF this, of "\<lparr>key_Name = meta_Name (GetObjectMeta dr),
                                   key_ObjectType = ''destinationrule''\<rparr>"] a
  show "v \<lparr>key_Name = meta_Name (GetObjectMeta dr), key_ObjectType = ''destinationrule''\<rparr> = None"
    by auto
qed

theorem exempt_object_bypassed_witness:
  "Check_run
     [\<lparr>GetObjectMeta = \<lparr>meta_Name = ''dr1'', meta_Namespace = ''ns'', meta_ClusterName = []\<rparr>,
       GetSpec = [''host'' \<mapsto> VString ''reviews'']\<rparr>,
      \<lparr>GetObjectMeta = \<lparr>meta_Name = ''mtls'', meta_Namespace = ''ns'', meta_ClusterName = []\<rparr>,
       GetSpec = [''host'' \<mapsto> VString ''*.ns'',
                  ''trafficPolicy'' \<mapsto>
                     VMap [''tls'' \<mapsto> VMap [''mode'' \<mapsto> VString ''ISTIO_MUTUAL'']]]\<rparr>,
      \<lparr>GetObjectMeta = \<lparr>meta_Name = ''dr2'', meta_Namespace = ''ns'', meta_ClusterName = []\<rparr>,
       GetSpec = [''host'' \<mapsto> VString ''reviews'']\<rparr>]
     (Some (addError Map.empty [''dr2'', ''dr1'']))
   \<and> Check_run
     [\<lparr>GetObjectMeta = \<lparr>meta_Name = ''dr1'', meta_Namespace = ''ns'', meta_ClusterName = []\<rparr>,
       GetSpec = [''host'' \<mapsto> VString ''reviews'']\<rparr>,
      \<lparr>GetObjectMeta = \<lparr>meta_Name = ''dr2'', meta_Namespace = ''ns'', meta_ClusterName = []\<rparr>,
       GetSpec = [''host'' \<mapsto> VString ''reviews'']\<rparr>]
     (Some (addError Map.empty [''dr2'', ''dr1'']))
   \<and> addError Map.empty [''dr2'', ''dr1'']
        \<lparr>key_Name = ''mtls'', key_ObjectType = ''destinationrule''\<rparr> = None"
proof -
  define a where "a = \<lparr>GetObjectMeta = \<lparr>meta_Name = ''dr1'', meta_Namespace = ''ns'', meta_ClusterName = []\<rparr>,
       GetSpec = [''host'' \<mapsto> VString ''reviews'']\<rparr>"
  define e where "e = \<lparr>GetObjectMeta = \<lparr>meta_Name = ''mtls'', meta_Namespace = ''ns'', meta_ClusterName = []\<rparr>,
       GetSpec = [''host'' \<mapsto> VString ''*.ns'',
                  ''trafficPolicy'' \<mapsto>
                     VMap [''tls'' \<mapsto> VMap [''mode'' \<mapsto> VString ''ISTIO_MUTUAL'']]]\<rparr>"
  define b where "b = \<lparr>GetObjectMeta = \<lparr>meta_Name = ''dr2'', meta_Namespace = ''ns'', meta_ClusterName = []\<rparr>,
       GetSpec = [''host'' \<mapsto> VString ''reviews'']\<rparr>"
  define V where "V = addError Map.empty [''dr2'', ''dr1'']"
  have h: "GetSpec e ''host'' = Some (VString ''*.ns'')" by (simp add: e_def)
  have f: "FormatHostnameForPrefixSearch ''*.ns'' (meta_Namespace (GetObjectMeta e))
             (meta_ClusterName (GetObjectMeta e))
           = Some \<lparr>Service = ''*'', Namespace = ''ns'', Cluster = []\<rparr>"
    by (simp add: e_def FormatHostnameForPrefixSearch_def)
  have x: "enablesNonLocalmTLS e \<lparr>Service = ''*'', Namespace = ''ns'', Cluster = []\<rparr>"
    by (simp add: e_def enablesNonLocalmTLS_def)
  have without: "Check_run ([a] @ [b]) (Some V)"
    by (simp add: Check_run_iff eval_simps addError_flagged insert_commute a_def b_def V_def)
  note fact = exempt_object_bypassed [OF h f x, where pre = "[a]" and post = "[b]"
      and r' = "Some V" and v = V]
  from fact have "Check_run ([a] @ e # [b]) (Some V) = Check_run ([a] @ [b]) (Some V)"
    by (rule conjunct2 [THEN conjunct1])
  with without have run: "Check_run ([a] @ e # [b]) (Some V)" by simp
  have fresh: "meta_Name (GetObjectMeta e) \<notin> (\<lambda>d. meta_Name (GetObjectMeta d)) ` set ([a] @ [b])"
    by (simp add: a_def b_def e_def)
  from fact [THEN conjunct2, THEN conjunct2] run fresh
  have "V \<lparr>key_Name = meta_Name (GetObjectMeta e), key_ObjectType = ''destinationrule''\<rparr> = None"
    by (elim impE) (intro conjI; assumption)
  then have none: "V \<lparr>key_Name = ''mtls'', key_ObjectType = ''destinationrule''\<rparr> = None"
    by (simp add: e_def)
  from run without have "Check_run [a, e, b] (Some V)" "Check_run [a, b] (Some V)" by simp_all
  from this none show ?thesis unfolding a_def b_def e_def V_def by (intro conjI)
qed

section \<open>Wildcard hosts\<close>




section \<open>Idempotent recording\<close>

lemma addError_keeps: "v k = Some y \<Longrightarrow> addError v names k = Some y"
  by (simp add: addError_flagged map_add_def)

lemma dom_flagged:
  "dom (flagged S) = (\<lambda>n. \<lparr>key_Name = n, key_ObjectType = ''destinationrule''\<rparr>) ` S"
proof -
  have "(k \<in> dom (flagged S)) = (k \<in> (\<lambda>n. \<lparr>key_Name = n, key_ObjectType = ''destinationrule''\<rparr>) ` S)" for k
  proof -
    obtain a b where k: "k = \<lparr>key_Name = a, key_ObjectType = b\<rparr>" by (cases k)
    show ?thesis unfolding k
      by (auto simp: flagged_def dom_def DestinationRulesCheckerType_def image_iff)
  qed
  then show ?thesis by blast
qed

lemma Check_three_sentinels:
  assumes h1: "GetSpec o1 ''host'' = Some (VString h1)"
    and f1: "FormatHostnameForPrefixSearch h1 (meta_Namespace (GetObjectMeta o1))
               (meta_ClusterName (GetObjectMeta o1)) = Some fqdn1"
    and e1: "\<not> enablesNonLocalmTLS o1 fqdn1"
    and x1: "extractSubsets o1 (meta_Name (GetObjectMeta o1)) =
               [\<lparr>Name = ''~'', RuleName = meta_Name (GetObjectMeta o1)\<rparr>]"
    and h2: "GetSpec o2 ''host'' = Some (VString h2)"
    and f2: "FormatHostnameForPrefixSearch h2 (meta_Namespace (GetObjectMeta o2))
               (meta_ClusterName (GetObjectMeta o2)) = Some fqdn2"
    and e2: "\<not> enablesNonLocalmTLS o2 fqdn2"
    and x2: "extractSubsets o2 (meta_Name (GetObjectMeta o2)) =
               [\<lparr>Name = ''~'', RuleName = meta_Name (GetObjectMeta o2)\<rparr>]"
    and h3: "GetSpec o3 ''host'' = Some (VString h3)"
    and f3: "FormatHostnameForPrefixSearch h3 (meta_Namespace (GetObjectMeta o3))
               (meta_ClusterName (GetObjectMeta o3)) = Some fqdn3"
    and e3: "\<not> enablesNonLocalmTLS o3 fqdn3"
    and x3: "extractSubsets o3 (meta_Name (GetObjectMeta o3)) =
               [\<lparr>Name = ''~'', RuleName = meta_Name (GetObjectMeta o3)\<rparr>]"
    and s12: "Service fqdn1 = Service fqdn2" and s23: "Service fqdn2 = Service fqdn3"
  shows "Check [o1, o2, o3] =
           Some (flagged {meta_Name (GetObjectMeta o1), meta_Name (GetObjectMeta o2),
                          meta_Name (GetObjectMeta o3)})"
proof -
  have "{meta_Name (GetObjectMeta o3), meta_Name (GetObjectMeta o2)} \<union>
        {meta_Name (GetObjectMeta o2), meta_Name (GetObjectMeta o1)} =
        {meta_Name (GetObjectMeta o1), meta_Name (GetObjectMeta o2), meta_Name (GetObjectMeta o3)}"
    by auto
  then show ?thesis
    unfolding Check_def
    by (simp add: Check_step_checked [OF h1 f1 e1] Check_step_checked [OF h2 f2 e2]
          Check_step_checked [OF h3 f3 e3] x1 x2 x3 s12 s23 seenCollisions_def collisions_def
          insert_commute)
qed

text \<open>
  C6, as the claim states it, fails in its example: three objects without subsets on the
  same wildcard host whose \<^verbatim>\<open>trafficPolicy.tls.mode\<close> is \<^verbatim>\<open>ISTIO_MUTUAL\<close> are all skipped
  by the exemption filter, and none of them appears in the output.
\<close>

theorem three_exempt_sentinels_counterexample:
  "Check_run
     [\<lparr>GetObjectMeta = \<lparr>meta_Name = ''dr1'', meta_Namespace = ''ns'', meta_ClusterName = []\<rparr>,
       GetSpec = [''host'' \<mapsto> VString ''*.ns'',
                  ''trafficPolicy'' \<mapsto>
                     VMap [''tls'' \<mapsto> VMap [''mode'' \<mapsto> VString ''ISTIO_MUTUAL'']]]\<rparr>,
      \<lparr>GetObjectMeta = \<lparr>meta_Name = ''dr2'', meta_Namespace = ''ns'', meta_ClusterName = []\<rparr>,
       GetSpec = [''host'' \<mapsto> VString ''*.ns'',
                  ''trafficPolicy'' \<mapsto>
                     VMap [''tls'' \<mapsto> VMap [''mode'' \<mapsto> VString ''ISTIO_MUTUAL'']]]\<rparr>,
      \<lparr>GetObjectMeta = \<lparr>meta_Name = ''dr3'', meta_Namespace = ''ns'', meta_ClusterName = []\<rparr>,
       GetSpec = [''host'' \<mapsto> VString ''*.ns'',
                  ''trafficPolicy'' \<mapsto>
                     VMap [''tls'' \<mapsto> VMap [''mode'' \<mapsto> VString ''ISTIO_MUTUAL'']]]\<rparr>]
     (Some Map.empty)"
  by (simp add: Check_run_iff eval_simps)

text \<open>
  C6, amended. Recording is idempotent: \<^verbatim>\<open>addError\<close> never changes a finding that is
  already recorded, and every validation in the result of a run holds exactly one check,
  however many partners its object collided with; the result is a map, so an identity
  has at most one entry. In particular, for three objects that the exemption filter
  does not accept, on the same service, for each of which the extractor yields the
  sentinel subset, every run returns exactly the findings of the three, one each.
\<close>

theorem recording_idempotent:
  "(v k = Some y \<longrightarrow> addError v names k = Some y)
   \<and> (Check_run drs (Some validations) \<and> validations key = Some x \<longrightarrow> length (Checks x) = 1)
   \<and> (GetSpec o1 ''host'' = Some (VString h1)
      \<and> FormatHostnameForPrefixSearch h1 (meta_Namespace (GetObjectMeta o1))
            (meta_ClusterName (GetObjectMeta o1)) = Some fqdn1
      \<and> \<not> enablesNonLocalmTLS o1 fqdn1
      \<and> extractSubsets o1 (meta_Name (GetObjectMeta o1)) =
            [\<lparr>Name = ''~'', RuleName = meta_Name (GetObjectMeta o1)\<rparr>]
      \<and> GetSpec o2 ''host'' = Some (VString h2)
      \<and> FormatHostnameForPrefixSearch h2 (meta_Namespace (GetObjectMeta o2))
            (meta_ClusterName (GetObjectMeta o2)) = Some fqdn2
      \<and> \<not> enablesNonLocalmTLS o2 fqdn2
      \<and> extractSubsets o2 (meta_Name (GetObjectMeta o2)) =
            [\<lparr>Name = ''~'', RuleName = meta_Name (GetObjectMeta o2)\<rparr>]
      \<and> GetSpec o3 ''host'' = Some (VString h3)
      \<and> FormatHostnameForPrefixSearch h3 (meta_Namespace (GetObjectMeta o3))
            (meta_ClusterName (GetObjectMeta o3)) = Some fqdn3
      \<and> \<not> enablesNonLocalmTLS o3 fqdn3
      \<and> extractSubsets o3 (meta_Name (GetObjectMeta o3)) =
            [\<lparr>Name = ''~'', RuleName = meta_Name (GetObjectMeta o3)\<rparr>]
      \<and> Service fqdn1 = Service fqdn2 \<and> Service fqdn2 = Service fqdn3
      \<and> Check_run [o1, o2, o3] r
      \<longrightarrow> (\<exists>result. r = Some result
            \<and> dom result =
                {\<lparr>key_Name = meta_Name (GetObjectMeta o1), key_ObjectType = ''destinationrule''\<rparr>,
                 \<lparr>key_Name = meta_Name (GetObjectMeta o2), key_ObjectType = ''destinationrule''\<rparr>,
                 \<lparr>key_Name = meta_Name (GetObjectMeta o3), key_ObjectType = ''destinationrule''\<rparr>}))"
proof (intro conjI impI)
  assume "v k = Some y"
  then show "addError v names k = Some y" by (rule addError_keeps)
next
  assume a: "Check_run drs (Some validations) \<and> validations key = Some x"
  obtain S where "Check drs = Some (flagged S)" using Check_flagged by blast
  moreover from a have "Check_run drs (Some validations)" and x: "validations key = Some x"
    by simp_all
  ultimately have "validations = flagged S" by (simp add: Check_run_iff)
  with x have "flagged S key = Some x" by simp
  then show "length (Checks x) = 1"
    by (auto simp: flagged_def split: if_splits)
next
  let ?S = "{meta_Name (GetObjectMeta o1), meta_Name (GetObjectMeta o2),
             meta_Name (GetObjectMeta o3)}"
  assume a: "GetSpec o1 ''host'' = Some (VString h1)
      \<and> FormatHostnameForPrefixSearch h1 (meta_Namespace (GetObjectMeta o1))
            (meta_ClusterName (GetObjectMeta o1)) = Some fqdn1
      \<and> \<not> enablesNonLocalmTLS o1 fqdn1
      \<and> extractSubsets o1 (meta_Name (GetObjectMeta o1)) =
            [\<lparr>Name = ''~'', RuleName = meta_Name (GetObjectMeta o1)\<rparr>]
      \<and> GetSpec o2 ''host'' = Some (VString h2)
      \<and> FormatHostnameForPrefixSearch h2 (meta_Namespace (GetObjectMeta o2))
            (meta_ClusterName (GetObjectMeta o2)) = Some fqdn2
      \<and> \<not> enablesNonLocalmTLS o2 fqdn2
      \<and> extractSubsets o2 (meta_Name (GetObjectMeta o2)) =
            [\<lparr>Name = ''~'', RuleName = meta_Name (GetObjectMeta o2)\<rparr>]
      \<and> GetSpec o3 ''host'' = Some (VString h3)
      \<and> FormatHostnameForPrefixSearch h3 (meta_Namespace (GetObjectMeta o3))
            (meta_ClusterName (GetObjectMeta o3)) = Some fqdn3
      \<and> \<not> enablesNonLocalmTLS o3 fqdn3
      \<and> extractSubsets o3 (meta_Name (GetObjectMeta o3)) =
            [\<lparr>Name = ''~'', RuleName = meta_Name (GetObjectMeta o3)\<rparr>]
      \<and> Service fqdn1 = Service fqdn2 \<and> Service fqdn2 = Service fqdn3
      \<and> Check_run [o1, o2, o3] r"
  then have "Check [o1, o2, o3] = Some (flagged ?S)"
    using Check_three_sentinels [of o1 h1 fqdn1 o2 h2 fqdn2 o3 h3 fqdn3] by simp
  with a have r: "r = Some (flagged ?S)" by (simp add: Check_run_iff)
  have "dom (flagged ?S) =
          {\<lparr>key_Name = meta_Name (GetObjectMeta o1), key_ObjectType = ''destinationrule''\<rparr>,
           \<lparr>key_Name = meta_Name (GetObjectMeta o2), key_ObjectType = ''destinationrule''\<rparr>,
           \<lparr>key_Name = meta_Name (GetObjectMeta o3), key_ObjectType = ''destinationrule''\<rparr>}"
    by (simp add: dom_flagged)
  with r show "\<exists>result. r = Some result
            \<and> dom result =
                {\<lparr>key_Name = meta_Name (GetObjectMeta o1), key_ObjectType = ''destinationrule''\<rparr>,
                 \<lparr>key_Name = meta_Name (GetObjectMeta o2), key_ObjectType = ''destinationrule''\<rparr>,
                 \<lparr>key_Name = meta_Name (GetObjectMeta o3), key_ObjectType = ''destinationrule''\<rparr>}"
    by (intro exI [of _ "flagged ?S"] conjI)
qed

theorem recording_idempotent_witness:
  "Check_run
     [\<lparr>GetObjectMeta = \<lparr>meta_Name = ''dr1'', meta_Namespace = ''ns'', meta_ClusterName = []\<rparr>,
       GetSpec = [''host'' \<mapsto> VString ''reviews'']\<rparr>,
      \<lparr>GetObjectMeta = \<lparr>meta_Name = ''dr2'', meta_Namespace = ''ns'', meta_ClusterName = []\<rparr>,
       GetSpec = [''host'' \<mapsto> VString ''reviews.ns'']\<rparr>,
      \<lparr>GetObjectMeta = \<lparr>meta_Name = ''dr3'', meta_Namespace = ''ns'', meta_ClusterName = []\<rparr>,
       GetSpec = [''host'' \<mapsto> VString ''reviews.ns.svc.cluster.local'']\<rparr>]
     (Some (addError Map.empty [''dr1'', ''dr2'', ''dr3'']))
   \<and> dom (addError Map.empty [''dr1'', ''dr2'', ''dr3'']) =
       {\<lparr>key_Name = ''dr1'', key_ObjectType = ''destinationrule''\<rparr>,
        \<lparr>key_Name = ''dr2'', key_ObjectType = ''destinationrule''\<rparr>,
        \<lparr>key_Name = ''dr3'', key_ObjectType = ''destinationrule''\<rparr>}
   \<and> addError (addError Map.empty [''dr1'', ''dr2'', ''dr3'']) [''dr2'', ''dr3'']
        \<lparr>key_Name = ''dr2'', key_ObjectType = ''destinationrule''\<rparr>
       = Some \<lparr>val_Name = ''dr2'', val_ObjectType = ''destinationrule'', Valid = True,
                Checks = [\<lparr>chk_Code = ''destinationrules.multimatch'', chk_Path = ''spec/host''\<rparr>]\<rparr>
   \<and> length (Checks \<lparr>val_Name = ''dr2'', val_ObjectType = ''destinationrule'', Valid = True,
                Checks = [\<lparr>chk_Code = ''destinationrules.multimatch'', chk_Path = ''spec/host''\<rparr>]\<rparr>) = 1"
proof -
  define a1 where "a1 = \<lparr>GetObjectMeta = \<lparr>meta_Name = ''dr1'', meta_Namespace = ''ns'', meta_ClusterName = []\<rparr>,
       GetSpec = [''host'' \<mapsto> VString ''reviews'']\<rparr>"
  define a2 where "a2 = \<lparr>GetObjectMeta = \<lparr>meta_Name = ''dr2'', meta_Namespace = ''ns'', meta_ClusterName = []\<rparr>,
       GetSpec = [''host'' \<mapsto> VString ''reviews.ns'']\<rparr>"
  define a3 where "a3 = \<lparr>GetObjectMeta = \<lparr>meta_Name = ''dr3'', meta_Namespace = ''ns'', meta_ClusterName = []\<rparr>,
       GetSpec = [''host'' \<mapsto> VString ''reviews.ns.svc.cluster.local'']\<rparr>"
  define V where "V = addError Map.empty [''dr1'', ''dr2'', ''dr3'']"
  define K where "K = \<lparr>key_Name = ''dr2'', key_ObjectType = ''destinationrule''\<rparr>"
  define X where "X = \<lparr>val_Name = ''dr2'', val_ObjectType = ''destinationrule'', Valid = True,
                Checks = [\<lparr>chk_Code = ''destinationrules.multimatch'', chk_Path = ''spec/host''\<rparr>]\<rparr>"
  define g1 where "g1 = \<lparr>Service = ''reviews'', Namespace = ''ns'', Cluster = []\<rparr>"
  define g3 where "g3 = \<lparr>Service = ''reviews'', Namespace = ''ns'', Cluster = ''svc.cluster.local''\<rparr>"
  note fact = recording_idempotent [where v = V and k = K and y = X and names = "[''dr2'', ''dr3'']"
      and drs = "[a1, a2, a3]" and validations = V and key = K and x = X
      and ?o1.0 = a1 and ?h1.0 = "''reviews''" and ?fqdn1.0 = g1
      and ?o2.0 = a2 and ?h2.0 = "''reviews.ns''" and ?fqdn2.0 = g1
      and ?o3.0 = a3 and ?h3.0 = "''reviews.ns.svc.cluster.local''" and ?fqdn3.0 = g3
      and r = "Some V"]
  have run: "Check_run [a1, a2, a3] (Some V)"
    by (simp add: Check_run_iff eval_simps addError_flagged insert_commute a1_def a2_def a3_def V_def)
  have vk: "V K = Some X"
    by (simp add: V_def K_def X_def addError_flagged flagged_def DestinationRulesCheckerType_def
          Build_def)
  have keep: "addError V [''dr2'', ''dr3''] K = Some X"
    using fact vk by blast
  have one: "length (Checks X) = 1"
    using fact run vk by blast
  have hyps: "GetSpec a1 ''host'' = Some (VString ''reviews'')
      \<and> FormatHostnameForPrefixSearch ''reviews'' (meta_Namespace (GetObjectMeta a1))
            (meta_ClusterName (GetObjectMeta a1)) = Some g1
      \<and> \<not> enablesNonLocalmTLS a1 g1
      \<and> extractSubsets a1 (meta_Name (GetObjectMeta a1)) =
            [\<lparr>Name = ''~'', RuleName = meta_Name (GetObjectMeta a1)\<rparr>]
      \<and> GetSpec a2 ''host'' = Some (VString ''reviews.ns'')
      \<and> FormatHostnameForPrefixSearch ''reviews.ns'' (meta_Namespace (GetObjectMeta a2))
            (meta_ClusterName (GetObjectMeta a2)) = Some g1
      \<and> \<not> enablesNonLocalmTLS a2 g1
      \<and> extractSubsets a2 (meta_Name (GetObjectMeta a2)) =
            [\<lparr>Name = ''~'', RuleName = meta_Name (GetObjectMeta a2)\<rparr>]
      \<and> GetSpec a3 ''host'' = Some (VString ''reviews.ns.svc.cluster.local'')
      \<and> FormatHostnameForPrefixSearch ''reviews.ns.svc.cluster.local''
            (meta_Namespace (GetObjectMeta a3)) (meta_ClusterName (GetObjectMeta a3)) = Some g3
      \<and> \<not> enablesNonLocalmTLS a3 g3
      \<and> extractSubsets a3 (meta_Name (GetObjectMeta a3)) =
            [\<lparr>Name = ''~'', RuleName = meta_Name (GetObjectMeta a3)\<rparr>]
      \<and> Service g1 = Service g1 \<and> Service g1 = Service g3"
    by (simp add: a1_def a2_def a3_def g1_def g3_def FormatHostnameForPrefixSearch_def
          enablesNonLocalmTLS_def extractSubsets_def)
  have "\<exists>result. Some V = Some result
            \<and> dom result =
                {\<lparr>key_Name = meta_Name (GetObjectMeta a1), key_ObjectType = ''destinationrule''\<rparr>,
                 \<lparr>key_Name = meta_Name (GetObjectMeta a2), key_ObjectType = ''destinationrule''\<rparr>,
                 \<lparr>key_Name = meta_Name (GetObjectMeta a3), key_ObjectType = ''destinationrule''\<rparr>}"
    using fact [THEN conjunct2, THEN conjunct2] hyps run by (elim impE) (intro conjI; simp)
  then have d: "dom V =
       {\<lparr>key_Name = ''dr1'', key_ObjectType = ''destinationrule''\<rparr>,
        \<lparr>key_Name = ''dr2'', key_ObjectType = ''destinationrule''\<rparr>,
        \<lparr>key_Name = ''dr3'', key_ObjectType = ''destinationrule''\<rparr>}"
    by (simp add: a1_def a2_def a3_def)
  from run d keep one show ?thesis
    unfolding a1_def a2_def a3_def V_def K_def X_def by (intro conjI)
qed

section \<open>Shared and disjoint subsets: the two scenarios\<close>

text \<open>
  C3, as the claim states it, fails twice. Two objects on the same wildcard host whose
  \<^verbatim>\<open>trafficPolicy.tls.mode\<close> is \<^verbatim>\<open>ISTIO_MUTUAL\<close>, declaring \<^verbatim>\<open>{a, b}\<close> and \<^verbatim>\<open>{b, c}\<close>,
  are both skipped by the exemption filter and nothing is reported. And in a sequence
  that contains an object declaring \<^verbatim>\<open>{a, b}\<close>, a later one declaring \<^verbatim>\<open>{c, d}\<close> and a
  third one declaring \<^verbatim>\<open>{a}\<close>, all on one service, the first object is reported.
\<close>

theorem shared_subset_counterexample:
  "Check_run
     [\<lparr>GetObjectMeta = \<lparr>meta_Name = ''dr1'', meta_Namespace = ''ns'', meta_ClusterName = []\<rparr>,
       GetSpec = [''host'' \<mapsto> VString ''*.ns'',
                  ''subsets'' \<mapsto> VSlice [VMap [''name'' \<mapsto> VString ''a''],
                                               VMap [''name'' \<mapsto> VString ''b'']],
                  ''trafficPolicy'' \<mapsto>
                     VMap [''tls'' \<mapsto> VMap [''mode'' \<mapsto> VString ''ISTIO_MUTUAL'']]]\<rparr>,
      \<lparr>GetObjectMeta = \<lparr>meta_Name = ''dr2'', meta_Namespace = ''ns'', meta_ClusterName = []\<rparr>,
       GetSpec = [''host'' \<mapsto> VString ''*.ns'',
                  ''subsets'' \<mapsto> VSlice [VMap [''name'' \<mapsto> VString ''b''],
                                               VMap [''name'' \<mapsto> VString ''c'']],
                  ''trafficPolicy'' \<mapsto>
                     VMap [''tls'' \<mapsto> VMap [''mode'' \<mapsto> VString ''ISTIO_MUTUAL'']]]\<rparr>]
     (Some Map.empty)
   \<and> Check_run
     [\<lparr>GetObjectMeta = \<lparr>meta_Name = ''dr1'', meta_Namespace = ''ns'', meta_ClusterName = []\<rparr>,
       GetSpec = [''host'' \<mapsto> VString ''reviews'',
                  ''subsets'' \<mapsto> VSlice [VMap [''name'' \<mapsto> VString ''a''],
                                               VMap [''name'' \<mapsto> VString ''b'']]]\<rparr>,
      \<lparr>GetObjectMeta = \<lparr>meta_Name = ''dr2'', meta_Namespace = ''ns'', meta_ClusterName = []\<rparr>,
       GetSpec = [''host'' \<mapsto> VString ''reviews'',
                  ''subsets'' \<mapsto> VSlice [VMap [''name'' \<mapsto> VString ''c''],
                                               VMap [''name'' \<mapsto> VString ''d'']]]\<rparr>,
      \<lparr>GetObjectMeta = \<lparr>meta_Name = ''dr3'', meta_Namespace = ''ns'', meta_ClusterName = []\<rparr>,
       GetSpec = [''host'' \<mapsto> VString ''reviews'',
                  ''subsets'' \<mapsto> VSlice [VMap [''name'' \<mapsto> VString ''a'']]]\<rparr>]
     (Some (addError Map.empty [''dr3'', ''dr1'']))
   \<and> addError Map.empty [''dr3'', ''dr1'']
        \<lparr>key_Name = ''dr1'', key_ObjectType = ''destinationrule''\<rparr> \<noteq> None"
  by (simp add: Check_run_iff eval_simps addError_flagged insert_commute flagged_def
        DestinationRulesCheckerType_def)

text \<open>
  C3, amended. Take two objects that the exemption filter does not accept, with hosts of
  the same service, each with a list of subsets. When a subset name \<open>b\<close> is declared by
  both, then in every input sequence that has the first somewhere before the second,
  every run of \<^verbatim>\<open>Check\<close> returns findings for both. When no name is declared by both
  and neither declares the sentinel name, every run of \<^verbatim>\<open>Check\<close> on the input that
  consists of the two objects returns no finding at all.
\<close>

theorem shared_subset_collision:
  assumes h1: "GetSpec o1 ''host'' = Some (VString h1)"
    and f1: "FormatHostnameForPrefixSearch h1 (meta_Namespace (GetObjectMeta o1))
               (meta_ClusterName (GetObjectMeta o1)) = Some fqdn1"
    and e1: "\<not> enablesNonLocalmTLS o1 fqdn1"
    and l1: "GetSpec o1 ''subsets'' = Some (VSlice es1)"
    and h2: "GetSpec o2 ''host'' = Some (VString h2)"
    and f2: "FormatHostnameForPrefixSearch h2 (meta_Namespace (GetObjectMeta o2))
               (meta_ClusterName (GetObjectMeta o2)) = Some fqdn2"
    and e2: "\<not> enablesNonLocalmTLS o2 fqdn2"
    and l2: "GetSpec o2 ''subsets'' = Some (VSlice es2)"
    and same: "Service fqdn1 = Service fqdn2"
  shows "(VMap m1 \<in> set es1 \<and> m1 ''name'' = Some (VString b) \<and>
          VMap m2 \<in> set es2 \<and> m2 ''name'' = Some (VString b) \<and>
          Check_run (pre @ o1 # mid @ o2 # post) r
          \<longrightarrow> (\<exists>v. r = Some v
                \<and> v \<lparr>key_Name = meta_Name (GetObjectMeta o1), key_ObjectType = ''destinationrule''\<rparr> \<noteq> None
                \<and> v \<lparr>key_Name = meta_Name (GetObjectMeta o2), key_ObjectType = ''destinationrule''\<rparr> \<noteq> None))
       \<and> ((\<forall>m x. VMap m \<in> set es1 \<and> m ''name'' = Some (VString x)
                  \<longrightarrow> x \<noteq> ''~'' \<and> (\<forall>m'. VMap m' \<in> set es2 \<longrightarrow> m' ''name'' \<noteq> Some (VString x)))
          \<and> (\<forall>m. VMap m \<in> set es2 \<longrightarrow> m ''name'' \<noteq> Some (VString ''~''))
          \<and> Check_run [o1, o2] r'
          \<longrightarrow> r' = Some Map.empty)"
proof (intro conjI impI)
  assume a: "VMap m1 \<in> set es1 \<and> m1 ''name'' = Some (VString b) \<and>
          VMap m2 \<in> set es2 \<and> m2 ''name'' = Some (VString b) \<and>
          Check_run (pre @ o1 # mid @ o2 # post) r"
  then have "b \<in> Name ` set (extractSubsets o1 (meta_Name (GetObjectMeta o1)))"
    and "b \<in> Name ` set (extractSubsets o2 (meta_Name (GetObjectMeta o2)))"
    unfolding extractSubsets_names [OF l1] extractSubsets_names [OF l2] by blast+
  from shared_subset_flagged [OF h1 f1 e1 this(1) h2 f2 e2 this(2) same, of pre mid post]
  obtain v where "Check (pre @ o1 # mid @ o2 # post) = Some v"
    and "v \<lparr>key_Name = meta_Name (GetObjectMeta o1), key_ObjectType = ''destinationrule''\<rparr> \<noteq> None"
    and "v \<lparr>key_Name = meta_Name (GetObjectMeta o2), key_ObjectType = ''destinationrule''\<rparr> \<noteq> None"
    by blast
  moreover from a have "r = Check (pre @ o1 # mid @ o2 # post)" by (simp add: Check_run_iff)
  ultimately show "\<exists>v. r = Some v
                \<and> v \<lparr>key_Name = meta_Name (GetObjectMeta o1), key_ObjectType = ''destinationrule''\<rparr> \<noteq> None
                \<and> v \<lparr>key_Name = meta_Name (GetObjectMeta o2), key_ObjectType = ''destinationrule''\<rparr> \<noteq> None"
    by (intro exI [of _ v] conjI) simp_all
next
  assume a: "(\<forall>m x. VMap m \<in> set es1 \<and> m ''name'' = Some (VString x)
                  \<longrightarrow> x \<noteq> ''~'' \<and> (\<forall>m'. VMap m' \<in> set es2 \<longrightarrow> m' ''name'' \<noteq> Some (VString x)))
          \<and> (\<forall>m. VMap m \<in> set es2 \<longrightarrow> m ''name'' \<noteq> Some (VString ''~''))
          \<and> Check_run [o1, o2] r'"
  then have "Name ` set (extractSubsets o1 (meta_Name (GetObjectMeta o1))) \<inter>
             Name ` set (extractSubsets o2 (meta_Name (GetObjectMeta o2))) = {}"
    and "''~'' \<notin> Name ` set (extractSubsets o1 (meta_Name (GetObjectMeta o1)))"
    and "''~'' \<notin> Name ` set (extractSubsets o2 (meta_Name (GetObjectMeta o2)))"
    unfolding extractSubsets_names [OF l1] extractSubsets_names [OF l2] by blast+
  then have "Check [o1, o2] = Some Map.empty"
    by (rule disjoint_subsets_nothing [OF h1 f1 e1 h2 f2 e2])
  with a show "r' = Some Map.empty" by (simp add: Check_run_iff)
qed

theorem shared_subset_collision_witness:
  "Check_run
     [\<lparr>GetObjectMeta = \<lparr>meta_Name = ''dr1'', meta_Namespace = ''ns'', meta_ClusterName = []\<rparr>,
       GetSpec = [''host'' \<mapsto> VString ''reviews'',
                  ''subsets'' \<mapsto> VSlice [VMap [''name'' \<mapsto> VString ''a''],
                                               VMap [''name'' \<mapsto> VString ''b'']]]\<rparr>,
      \<lparr>GetObjectMeta = \<lparr>meta_Name = ''other'', meta_Namespace = ''ns'', meta_ClusterName = []\<rparr>,
       GetSpec = [''host'' \<mapsto> VString ''ratings'']\<rparr>,
      \<lparr>GetObjectMeta = \<lparr>meta_Name = ''dr2'', meta_Namespace = ''ns'', meta_ClusterName = []\<rparr>,
       GetSpec = [''host'' \<mapsto> VString ''reviews.ns'',
                  ''subsets'' \<mapsto> VSlice [VMap [''name'' \<mapsto> VString ''b''],
                                               VMap [''name'' \<mapsto> VString ''c'']]]\<rparr>]
     (Some (addError Map.empty [''dr2'', ''dr1'']))
   \<and> addError Map.empty [''dr2'', ''dr1'']
        \<lparr>key_Name = ''dr1'', key_ObjectType = ''destinationrule''\<rparr> \<noteq> None
   \<and> addError Map.empty [''dr2'', ''dr1'']
        \<lparr>key_Name = ''dr2'', key_ObjectType = ''destinationrule''\<rparr> \<noteq> None
   \<and> Check_run
     [\<lparr>GetObjectMeta = \<lparr>meta_Name = ''dr1'', meta_Namespace = ''ns'', meta_ClusterName = []\<rparr>,
       GetSpec = [''host'' \<mapsto> VString ''reviews'',
                  ''subsets'' \<mapsto> VSlice [VMap [''name'' \<mapsto> VString ''a''],
                                               VMap [''name'' \<mapsto> VString ''b'']]]\<rparr>,
      \<lparr>GetObjectMeta = \<lparr>meta_Name = ''dr3'', meta_Namespace = ''ns'', meta_ClusterName = []\<rparr>,
       GetSpec = [''host'' \<mapsto> VString ''reviews.ns'',
                  ''subsets'' \<mapsto> VSlice [VMap [''name'' \<mapsto> VString ''c''],
                                               VMap [''name'' \<mapsto> VString ''d'']]]\<rparr>]
     (Some Map.empty)"
proof -
  define ab where "ab = [VMap [''name'' \<mapsto> VString ''a''], VMap [''name'' \<mapsto> VString ''b'']]"
  define bc where "bc = [VMap [''name'' \<mapsto> VString ''b''], VMap [''name'' \<mapsto> VString ''c'']]"
  define cd where "cd = [VMap [''name'' \<mapsto> VString ''c''], VMap [''name'' \<mapsto> VString ''d'']]"
  define a1 where "a1 = \<lparr>GetObjectMeta = \<lparr>meta_Name = ''dr1'', meta_Namespace = ''ns'', meta_ClusterName = []\<rparr>,
       GetSpec = [''host'' \<mapsto> VString ''reviews'', ''subsets'' \<mapsto> VSlice ab]\<rparr>"
  define x where "x = \<lparr>GetObjectMeta = \<lparr>meta_Name = ''other'', meta_Namespace = ''ns'', meta_ClusterName = []\<rparr>,
       GetSpec = [''host'' \<mapsto> VString ''ratings'']\<rparr>"
  define a2 where "a2 = \<lparr>GetObjectMeta = \<lparr>meta_Name = ''dr2'', meta_Namespace = ''ns'', meta_ClusterName = []\<rparr>,
       GetSpec = [''host'' \<mapsto> VString ''reviews.ns'', ''subsets'' \<mapsto> VSlice bc]\<rparr>"
  define a3 where "a3 = \<lparr>GetObjectMeta = \<lparr>meta_Name = ''dr3'', meta_Namespace = ''ns'', meta_ClusterName = []\<rparr>,
       GetSpec = [''host'' \<mapsto> VString ''reviews.ns'', ''subsets'' \<mapsto> VSlice cd]\<rparr>"
  define g where "g = \<lparr>Service = ''reviews'', Namespace = ''ns'', Cluster = []\<rparr>"
  define V where "V = addError Map.empty [''dr2'', ''dr1'']"
  have h1: "GetSpec a1 ''host'' = Some (VString ''reviews'')" by (simp add: a1_def)
  have f1: "FormatHostnameForPrefixSearch ''reviews'' (meta_Namespace (GetObjectMeta a1))
              (meta_ClusterName (GetObjectMeta a1)) = Some g"
    by (simp add: a1_def g_def FormatHostnameForPrefixSearch_def)
  have e1: "\<not> enablesNonLocalmTLS a1 g" by (simp add: g_def enablesNonLocalmTLS_def)
  have l1: "GetSpec a1 ''subsets'' = Some (VSlice ab)" by (simp add: a1_def)
  have h2: "GetSpec a2 ''host'' = Some (VString ''reviews.ns'')" by (simp add: a2_def)
  have f2: "FormatHostnameForPrefixSearch ''reviews.ns'' (meta_Namespace (GetObjectMeta a2))
              (meta_ClusterName (GetObjectMeta a2)) = Some g"
    by (simp add: a2_def g_def FormatHostnameForPrefixSearch_def)
  have e2: "\<not> enablesNonLocalmTLS a2 g" by (simp add: g_def enablesNonLocalmTLS_def)
  have l2: "GetSpec a2 ''subsets'' = Some (VSlice bc)" by (simp add: a2_def)
  have h3: "GetSpec a3 ''host'' = Some (VString ''reviews.ns'')" by (simp add: a3_def)
  have f3: "FormatHostnameForPrefixSearch ''reviews.ns'' (meta_Namespace (GetObjectMeta a3))
              (meta_ClusterName (GetObjectMeta a3)) = Some g"
    by (simp add: a3_def g_def FormatHostnameForPrefixSearch_def)
  have e3: "\<not> enablesNonLocalmTLS a3 g" by (simp add: g_def enablesNonLocalmTLS_def)
  have l3: "GetSpec a3 ''subsets'' = Some (VSlice cd)" by (simp add: a3_def)
  have same: "Service g = Service g" by simp
  have run: "Check_run ([] @ a1 # [x] @ a2 # []) (Some V)"
    by (simp add: Check_run_iff eval_simps addError_flagged insert_commute
          a1_def a2_def x_def ab_def bc_def V_def flagged_empty)
  have shared: "VMap [''name'' \<mapsto> VString ''b''] \<in> set ab \<and>
        [''name'' \<mapsto> VString ''b''] ''name'' = Some (VString ''b'') \<and>
        VMap [''name'' \<mapsto> VString ''b''] \<in> set bc \<and>
        [''name'' \<mapsto> VString ''b''] ''name'' = Some (VString ''b'')"
    by (simp add: ab_def bc_def)
  from shared_subset_collision [OF h1 f1 e1 l1 h2 f2 e2 l2 same,
      where ?m1.0 = "[''name'' \<mapsto> VString ''b'']" and ?m2.0 = "[''name'' \<mapsto> VString ''b'']"
        and b = "''b''" and pre = "[]" and mid = "[x]" and post = "[]" and r = "Some V",
      THEN conjunct1] shared run
  have "\<exists>v. Some V = Some v
          \<and> v \<lparr>key_Name = meta_Name (GetObjectMeta a1), key_ObjectType = ''destinationrule''\<rparr> \<noteq> None
          \<and> v \<lparr>key_Name = meta_Name (GetObjectMeta a2), key_ObjectType = ''destinationrule''\<rparr> \<noteq> None"
    by (elim impE) (intro conjI; simp)
  then have keys: "V \<lparr>key_Name = ''dr1'', key_ObjectType = ''destinationrule''\<rparr> \<noteq> None"
      "V \<lparr>key_Name = ''dr2'', key_ObjectType = ''destinationrule''\<rparr> \<noteq> None"
    by (simp_all add: a1_def a2_def)
  have disjoint: "(\<forall>m x. VMap m \<in> set ab \<and> m ''name'' = Some (VString x)
                  \<longrightarrow> x \<noteq> ''~'' \<and> (\<forall>m'. VMap m' \<in> set cd \<longrightarrow> m' ''name'' \<noteq> Some (VString x)))
          \<and> (\<forall>m. VMap m \<in> set cd \<longrightarrow> m ''name'' \<noteq> Some (VString ''~''))"
    by (auto simp: ab_def cd_def)
  have run2: "Check_run [a1, a3] (Check [a1, a3])" by (simp add: Check_run_iff)
  from shared_subset_collision [OF h1 f1 e1 l1 h3 f3 e3 l3 same,
      where r' = "Check [a1, a3]", THEN conjunct2] disjoint run2
  have "Check [a1, a3] = Some Map.empty" by (elim impE) (intro conjI; simp)
  with run2 have run3: "Check_run [a1, a3] (Some Map.empty)" by simp
  from run have "Check_run [a1, x, a2] (Some V)" by simp
  from this keys run3 show ?thesis
    unfolding a1_def a2_def a3_def x_def ab_def bc_def cd_def V_def by (intro conjI)
qed

end
